theory Spec2Isabelle
  imports Complex_Main "HOL-Library.Multiset"
begin

section \<open>computeStatistics.py: the statistics engine\<close>

text \<open>
  A shallow embedding of \<^verbatim>\<open>Ejercicio 1/computeStatistics.py\<close>.

  Number model. Python's \<^verbatim>\<open>int\<close> is unbounded and is modelled by \<^typ>\<open>int\<close>.
  Python's \<^verbatim>\<open>float\<close> is modelled by \<^typ>\<open>real\<close>: every arithmetic operation on
  floats is exact. The rounding of IEEE-754 binary64, its infinities and its underflow
  are outside this embedding; every statement below about a numeric value is a
  statement about exact arithmetic. What is kept of the finite range of a float is the
  one place where it changes the control flow: converting an \<^verbatim>\<open>int\<close> that is too
  large to a float raises OverflowError, and whether it does depends on the integer
  alone.

  A Python \<^verbatim>\<open>str\<close> is a \<^typ>\<open>string\<close>; a \<^typ>\<open>char\<close> stands for the code point
  with the same number (below 256).

  Every \<^verbatim>\<open>raise\<close> of the source, and every operation of Python that raises
  (division by zero, an index out of range), is a value \<open>Inl e\<close> of the result.
\<close>

subsection \<open>Errors\<close>

datatype py_error = ValueError string | ZeroDivisionError | IndexError | OverflowError

subsection \<open>Characters and \<^verbatim>\<open>str.strip\<close>\<close>

definition ord :: "char \<Rightarrow> int" where
  "ord c = int (of_char c)"

text \<open>\<^verbatim>\<open>"0" <= c <= "9"\<close>: the comparison of one-character strings is by code point.\<close>

definition is_digit :: "char \<Rightarrow> bool" where
  "is_digit c = (ord CHR ''0'' \<le> ord c \<and> ord c \<le> ord CHR ''9'')"

text \<open>
  The characters \<^verbatim>\<open>str.strip()\<close> removes, below code point 256: tab, line feed,
  vertical tab, form feed, carriage return, the separators 28 to 31, the space,
  NEL (133) and the no-break space (160).
\<close>

definition isspace :: "char \<Rightarrow> bool" where
  "isspace c = (ord c \<in> {9, 10, 11, 12, 13, 28, 29, 30, 31, 32, 133, 160})"

definition strip :: "string \<Rightarrow> string" where
  "strip s = rev (dropWhile isspace (rev (dropWhile isspace s)))"

subsection \<open>\<^verbatim>\<open>parse_number\<close>\<close>

text \<open>
  The first \<^verbatim>\<open>while\<close> loop (lines 39 to 42), on the loop variables
  \<^verbatim>\<open>i\<close>, \<^verbatim>\<open>int_part\<close>, \<^verbatim>\<open>has_digit\<close>.
\<close>

function int_loop :: "string \<Rightarrow> nat \<Rightarrow> int \<Rightarrow> bool \<Rightarrow> nat \<times> int \<times> bool" where
  "int_loop s i int_part has_digit =
     (if i < length s \<and> is_digit (s ! i)
      then int_loop s (i + 1) (int_part * 10 + (ord (s ! i) - ord CHR ''0'')) True
      else (i, int_part, has_digit))"
  by pat_completeness auto
termination
  by (relation "measure (\<lambda>(s, i, int_part, has_digit). length s - i)") auto

declare int_loop.simps [simp del]

text \<open>
  The second \<^verbatim>\<open>while\<close> loop (lines 49 to 53), on \<^verbatim>\<open>i\<close>, \<^verbatim>\<open>frac_part\<close>,
  \<^verbatim>\<open>frac_div\<close>, \<^verbatim>\<open>has_digit\<close>.
\<close>

function frac_loop :: "string \<Rightarrow> nat \<Rightarrow> int \<Rightarrow> int \<Rightarrow> bool \<Rightarrow> nat \<times> int \<times> int \<times> bool" where
  "frac_loop s i frac_part frac_div has_digit =
     (if i < length s \<and> is_digit (s ! i)
      then frac_loop s (i + 1) (frac_part * 10 + (ord (s ! i) - ord CHR ''0''))
             (frac_div * 10) True
      else (i, frac_part, frac_div, has_digit))"
  by pat_completeness auto
termination
  by (relation "measure (\<lambda>(s, i, frac_part, frac_div, has_digit). length s - i)") auto

declare frac_loop.simps [simp del]

text \<open>
  The conversion of an \<^verbatim>\<open>int\<close> operand in mixed arithmetic such as
  \<^verbatim>\<open>int_part + frac_part / frac_div\<close>. Python rounds the integer to the nearest
  float and raises OverflowError (\<^verbatim>\<open>int too large to convert to float\<close>) when the
  result is beyond the largest float, \<open>2 ^ 1024 - 2 ^ 971\<close>; that is the case from
  \<open>2 ^ 1024 - 2 ^ 970\<close> on. The length of a list is below \<open>2 ^ 63\<close>, so the
  conversions of \<^verbatim>\<open>len(values)\<close> never raise and are written \<^const>\<open>real\<close>.
\<close>

definition int_to_float :: "int \<Rightarrow> py_error + real" where
  "int_to_float n =
     (if \<bar>n\<bar> \<ge> 2 ^ 1024 - 2 ^ 970 then Inl OverflowError else Inr (real_of_int n))"

text \<open>
  \<^verbatim>\<open>frac_part / frac_div\<close> is Python's true division of two integers; it raises
  ZeroDivisionError when \<^verbatim>\<open>frac_div\<close> is 0. Its result is a float whatever the size
  of the operands. The sum then converts \<^verbatim>\<open>int_part\<close>.
\<close>

definition parse_number :: "string \<Rightarrow> py_error + real" where
  "parse_number token =
    (let s = strip token in
     if s = [] then Inl (ValueError ''Empty token'')
     else
       let (sign, i0) =
              (if s ! 0 = CHR ''-'' then (- 1, 1)
               else if s ! 0 = CHR ''+'' then (1, 1)
               else (1 :: real, 0 :: nat));
           (i1, int_part, has_digit1) = int_loop s i0 0 False;
           (i2, frac_part, frac_div, has_digit2) =
              (if i1 < length s \<and> s ! i1 = CHR ''.''
               then frac_loop s (i1 + 1) 0 1 has_digit1
               else (i1, 0, 1, has_digit1))
       in if \<not> has_digit2 \<or> i2 \<noteq> length s then Inl (ValueError ''Invalid number'')
          else if frac_div = 0 then Inl ZeroDivisionError
          else (case int_to_float int_part of
                  Inl e \<Rightarrow> Inl e
                | Inr ip \<Rightarrow> Inr (sign * (ip + real_of_int frac_part / real_of_int frac_div))))"


subsection \<open>\<^verbatim>\<open>sqrt_newton\<close>\<close>

text \<open>
  \<^verbatim>\<open>for _ in range(25): guess = 0.5 * (guess + x / guess)\<close>, with the number of
  iterations still to run as the first argument. The division raises
  ZeroDivisionError when \<^verbatim>\<open>guess\<close> is 0.
\<close>

fun newton_loop :: "nat \<Rightarrow> real \<Rightarrow> real \<Rightarrow> py_error + real" where
  "newton_loop 0 x guess = Inr guess"
| "newton_loop (Suc k) x guess =
     (if guess = 0 then Inl ZeroDivisionError
      else newton_loop k x (0.5 * (guess + x / guess)))"

definition sqrt_newton :: "real \<Rightarrow> py_error + real" where
  "sqrt_newton x =
     (if x = 0 then Inr 0
      else newton_loop 25 x (if x \<ge> 1 then x else 1))"

subsection \<open>\<^verbatim>\<open>selection_sort\<close>\<close>

text \<open>
  Python lists are objects: \<^verbatim>\<open>selection_sort\<close> receives a reference, copies the
  list it refers to (\<^verbatim>\<open>values[:]\<close>) and sorts the copy in place. The store holds the
  list objects; a reference is the position of its object in the store.
\<close>

type_synonym ref = nat
type_synonym store = "real list list"

text \<open>\<^verbatim>\<open>values[:]\<close>: a new list object with the same elements.\<close>

definition list_copy :: "store \<Rightarrow> ref \<Rightarrow> store \<times> ref" where
  "list_copy h r = (h @ [h ! r], length h)"

text \<open>
  The inner loop \<^verbatim>\<open>for j in range(i + 1, n)\<close> on the loop variables \<^verbatim>\<open>j\<close> and
  \<^verbatim>\<open>min_index\<close>. It only reads \<^verbatim>\<open>arr\<close>.
\<close>

function min_loop :: "real list \<Rightarrow> nat \<Rightarrow> nat \<Rightarrow> nat \<Rightarrow> nat" where
  "min_loop arr j n min_index =
     (if j < n
      then min_loop arr (j + 1) n (if arr ! j < arr ! min_index then j else min_index)
      else min_index)"
  by pat_completeness auto
termination
  by (relation "measure (\<lambda>(arr, j, n, min_index). n - j)") auto

declare min_loop.simps [simp del]

text \<open>
  The outer loop \<^verbatim>\<open>for i in range(n)\<close>. The swap
  \<^verbatim>\<open>arr[i], arr[min_index] = arr[min_index], arr[i]\<close> evaluates the right-hand side
  first, then stores into \<^verbatim>\<open>arr[i]\<close>, then into \<^verbatim>\<open>arr[min_index]\<close>; both writes go
  to the object \<^verbatim>\<open>arr\<close> refers to.
\<close>

function sort_loop :: "store \<Rightarrow> ref \<Rightarrow> nat \<Rightarrow> nat \<Rightarrow> store" where
  "sort_loop h arr i n =
     (if i < n
      then let a = h ! arr;
               min_index = min_loop a (i + 1) n i
           in sort_loop (h[arr := a[i := a ! min_index, min_index := a ! i]]) arr (i + 1) n
      else h)"
  by pat_completeness auto
termination
  by (relation "measure (\<lambda>(h, arr, i, n). n - i)") auto

declare sort_loop.simps [simp del]

definition selection_sort :: "store \<Rightarrow> ref \<Rightarrow> store \<times> ref" where
  "selection_sort h values =
     (let (h1, arr) = list_copy h values;
          n = length (h1 ! arr)
      in (sort_loop h1 arr 0 n, arr))"

subsection \<open>\<^verbatim>\<open>mean\<close>, \<^verbatim>\<open>median\<close>, \<^verbatim>\<open>mode\<close>, \<^verbatim>\<open>variance\<close>\<close>

definition mean :: "real list \<Rightarrow> py_error + real" where
  "mean values =
     (let total = foldl (\<lambda>total v. total + v) 0 values
      in if length values = 0 then Inl ZeroDivisionError
         else Inr (total / real (length values)))"

text \<open>
  \<^verbatim>\<open>xs[i]\<close>: a negative index counts from the end, and an index outside the list
  raises IndexError.
\<close>

definition list_get :: "'a list \<Rightarrow> int \<Rightarrow> py_error + 'a" where
  "list_get xs i =
     (let j = (if i < 0 then i + int (length xs) else i)
      in if 0 \<le> j \<and> j < int (length xs) then Inr (xs ! nat j) else Inl IndexError)"

definition median :: "real list \<Rightarrow> py_error + real" where
  "median sorted_vals =
     (let n = int (length sorted_vals);
          mid = n div 2
      in if n mod 2 = 1 then list_get sorted_vals mid
         else (case list_get sorted_vals (mid - 1) of
                 Inl e \<Rightarrow> Inl e
               | Inr lo \<Rightarrow>
                  (case list_get sorted_vals mid of
                     Inl e \<Rightarrow> Inl e
                   | Inr hi \<Rightarrow> Inr ((lo + hi) / 2))))"

text \<open>
  The dictionary \<^verbatim>\<open>counts\<close> is a list of (key, count) pairs in insertion order, as
  Python's \<^verbatim>\<open>dict\<close> keeps it: \<^verbatim>\<open>counts.get(v, 0)\<close> and \<^verbatim>\<open>counts[v] = c\<close>.
  Assigning to a key that is present keeps its position; a new key goes to the end.
\<close>

fun dict_get :: "(real \<times> int) list \<Rightarrow> real \<Rightarrow> int \<Rightarrow> int" where
  "dict_get [] v d = d"
| "dict_get ((k, c) # kcs) v d = (if k = v then c else dict_get kcs v d)"

fun dict_set :: "(real \<times> int) list \<Rightarrow> real \<Rightarrow> int \<Rightarrow> (real \<times> int) list" where
  "dict_set [] v c' = [(v, c')]"
| "dict_set ((k, c) # kcs) v c' = (if k = v then (k, c') # kcs else (k, c) # dict_set kcs v c')"

definition mode :: "real list \<Rightarrow> real list" where
  "mode values =
     (let counts = foldl (\<lambda>counts v. dict_set counts v (dict_get counts v 0 + 1)) [] values;
          max_count = foldl (\<lambda>max_count c. if c > max_count then c else max_count) 0
                        (map snd counts)
      in if max_count \<le> 1 then []
         else foldl (\<lambda>modes (k, c). if c = max_count then modes @ [k] else modes) [] counts)"

definition variance :: "real list \<Rightarrow> real \<Rightarrow> py_error + real" where
  "variance values avg =
     (let total = foldl (\<lambda>total v. let diff = v - avg in total + diff * diff) 0 values
      in if length values = 0 then Inl ZeroDivisionError
         else Inr (total / real (length values)))"

subsection \<open>\<^verbatim>\<open>build_report\<close> and the compute path of \<^verbatim>\<open>main\<close>\<close>

text \<open>
  \<^verbatim>\<open>build_report\<close> renders its results as text lines. The record holds the values the
  lines are formatted from; the formatting itself is not modelled.
\<close>

record report =
  rep_input_file :: string
  rep_count :: int
  rep_invalid :: int
  rep_mean :: real
  rep_median :: real
  rep_mode :: "real list"
  rep_variance :: real
  rep_std :: real
  rep_elapsed :: real

text \<open>
  \<^verbatim>\<open>values\<close> is the only list object when \<^verbatim>\<open>build_report\<close> starts. The calls after
  \<^verbatim>\<open>selection_sort(values)\<close> read \<^verbatim>\<open>values\<close> from the store as the sort left it.
\<close>

definition build_report :: "string \<Rightarrow> real list \<Rightarrow> int \<Rightarrow> real \<Rightarrow> py_error + report" where
  "build_report input_file values0 invalid_count elapsed =
     (let values = 0;
          (h, sorted_ref) = selection_sort [values0] values;
          sorted_vals = h ! sorted_ref
      in case mean (h ! values) of
           Inl e \<Rightarrow> Inl e
         | Inr avg \<Rightarrow>
            (case median sorted_vals of
               Inl e \<Rightarrow> Inl e
             | Inr med \<Rightarrow>
                (let modes = mode (h ! values)
                 in case variance (h ! values) avg of
                      Inl e \<Rightarrow> Inl e
                    | Inr var \<Rightarrow>
                       (case sqrt_newton var of
                          Inl e \<Rightarrow> Inl e
                        | Inr std \<Rightarrow>
                           Inr \<lparr>rep_input_file = input_file,
                                rep_count = int (length (h ! values)),
                                rep_invalid = invalid_count,
                                rep_mean = avg, rep_median = med, rep_mode = modes,
                                rep_variance = var, rep_std = std,
                                rep_elapsed = elapsed\<rparr>))))"

text \<open>
  The loop of \<^verbatim>\<open>main\<close> over the tokens (lines 251 to 256): only ValueError is caught,
  any other exception leaves the loop.
\<close>

fun parse_tokens :: "string list \<Rightarrow> real list \<Rightarrow> int \<Rightarrow> py_error + (real list \<times> int)" where
  "parse_tokens [] values invalid = Inr (values, invalid)"
| "parse_tokens (t # ts) values invalid =
     (case parse_number t of
        Inr v \<Rightarrow> parse_tokens ts (values @ [v]) invalid
      | Inl (ValueError msg) \<Rightarrow> parse_tokens ts values (invalid + 1)
      | Inl e \<Rightarrow> Inl e)"

text \<open>
  The two ways \<^verbatim>\<open>main\<close> ends once the tokens are read: the report
  \<^verbatim>\<open>ERROR: No valid numbers found.\<close> with the number of invalid tokens, or the report
  of \<^verbatim>\<open>build_report\<close>.
\<close>

datatype outcome = NoValidNumbers int | Statistics report

text \<open>
  Lines 248 to 278 of \<^verbatim>\<open>main\<close>, from the tokens to the report. Reading the file,
  printing, writing the report and the clock are outside; the elapsed time is a
  parameter.
\<close>

definition main_compute :: "string \<Rightarrow> string list \<Rightarrow> real \<Rightarrow> py_error + outcome" where
  "main_compute input_file tokens elapsed =
     (case parse_tokens tokens [] 0 of
        Inl e \<Rightarrow> Inl e
      | Inr (values, invalid) \<Rightarrow>
          if values = [] then Inr (NoValidNumbers invalid)
          else (case build_report input_file values invalid elapsed of
                  Inl e \<Rightarrow> Inl e
                | Inr r \<Rightarrow> Inr (Statistics r)))"

section \<open>Notions the specification is stated in\<close>

subsection \<open>The number format\<close>

text \<open>
  The value of a digit, and the value of a run of digits accumulated as
  \<open>value * 10 + digit\<close>.
\<close>

definition digit_value :: "char \<Rightarrow> int" where
  "digit_value c = ord c - ord CHR ''0''"

definition digits_value :: "string \<Rightarrow> int" where
  "digits_value ds = foldl (\<lambda>v c. v * 10 + digit_value c) 0 ds"

text \<open>
  The format errors of the parser's contract, on the token with its surrounding
  whitespace removed: empty; a character outside digits, signs and the point; more
  than one point; a sign after the first position; no digit.
\<close>

definition allowed_char :: "char \<Rightarrow> bool" where
  "allowed_char c = (is_digit c \<or> c = CHR ''+'' \<or> c = CHR ''-'' \<or> c = CHR ''.'')"

definition is_sign :: "char \<Rightarrow> bool" where
  "is_sign c = (c = CHR ''+'' \<or> c = CHR ''-'')"

definition invalid_number_format :: "string \<Rightarrow> bool" where
  "invalid_number_format s =
     (s = []
      \<or> (\<exists>c \<in> set s. \<not> allowed_char c)
      \<or> 1 < count_list s CHR ''.''
      \<or> (\<exists>i \<in> {1 ..< length s}. is_sign (s ! i))
      \<or> \<not> (\<exists>c \<in> set s. is_digit c))"

subsection \<open>The modal set\<close>

text \<open>The distinct values of a list, in the order of their first occurrence.\<close>

definition first_occurrences :: "real list \<Rightarrow> real list" where
  "first_occurrences xs = rev (remdups (rev xs))"

text \<open>The largest number of occurrences of a value in the list; 0 for the empty list.\<close>

definition max_frequency :: "real list \<Rightarrow> nat" where
  "max_frequency xs = Max (insert 0 (count_list xs ` set xs))"

subsection \<open>Auxiliary notions of the proofs\<close>

text \<open>The length of the sign prefix the parser skips, and the sign it stands for.\<close>

definition sign_len :: "string \<Rightarrow> nat" where
  "sign_len s = (if s \<noteq> [] \<and> (hd s = CHR ''-'' \<or> hd s = CHR ''+'') then 1 else 0)"

definition sign_of :: "string \<Rightarrow> real" where
  "sign_of s = (if s \<noteq> [] \<and> hd s = CHR ''-'' then - 1 else 1)"

text \<open>The digits of the integer part: the run of digits after the sign prefix.\<close>

definition int_digits :: "string \<Rightarrow> string" where
  "int_digits s = takeWhile is_digit (drop (sign_len s) s)"

text \<open>What follows the sign prefix of a well-formed number.\<close>

definition body_ok :: "string \<Rightarrow> bool" where
  "body_ok body = ((\<forall>c \<in> set body. is_digit c \<or> c = CHR ''.'')
      \<and> count_list body CHR ''.'' \<le> 1 \<and> (\<exists>c \<in> set body. is_digit c))"

section \<open>The parser\<close>

subsection \<open>The two scanning loops\<close>

lemma takeWhile_drop_step:
  assumes "i < length s" "P (s ! i)"
  shows "takeWhile P (drop i s) = s ! i # takeWhile P (drop (Suc i) s)"
  using assms by (simp flip: Cons_nth_drop_Suc)

lemma takeWhile_drop_stop:
  assumes "\<not> (i < length s \<and> P (s ! i))"
  shows "takeWhile P (drop i s) = []"
proof (cases "i < length s")
  case True
  with assms show ?thesis by (simp flip: Cons_nth_drop_Suc)
next
  case False
  then show ?thesis by simp
qed

lemma int_loop_eq:
  "int_loop s i a h =
     (i + length (takeWhile is_digit (drop i s)),
      foldl (\<lambda>v c. v * 10 + digit_value c) a (takeWhile is_digit (drop i s)),
      h \<or> takeWhile is_digit (drop i s) \<noteq> [])"
proof (induction s i a h rule: int_loop.induct)
  case (1 s i a h)
  show ?case
  proof (cases "i < length s \<and> is_digit (s ! i)")
    case True
    then have tw: "takeWhile is_digit (drop i s) = s ! i # takeWhile is_digit (drop (Suc i) s)"
      by (simp add: takeWhile_drop_step)
    from True have "int_loop s i a h = int_loop s (i + 1) (a * 10 + (ord (s ! i) - ord CHR ''0'')) True"
      by (subst int_loop.simps) auto
    also have "\<dots> = (i + 1 + length (takeWhile is_digit (drop (i + 1) s)),
      foldl (\<lambda>v c. v * 10 + digit_value c) (a * 10 + (ord (s ! i) - ord CHR ''0'')) (takeWhile is_digit (drop (i + 1) s)),
      True \<or> takeWhile is_digit (drop (i + 1) s) \<noteq> [])"
      using True by (rule "1.IH")
    finally show ?thesis
      by (simp add: tw digit_value_def)
  next
    case False
    then have "takeWhile is_digit (drop i s) = []"
      by (rule takeWhile_drop_stop)
    moreover from False have "int_loop s i a h = (i, a, h)"
      by (subst int_loop.simps) auto
    ultimately show ?thesis by simp
  qed
qed

lemma frac_loop_eq:
  "frac_loop s i a d h =
     (i + length (takeWhile is_digit (drop i s)),
      foldl (\<lambda>v c. v * 10 + digit_value c) a (takeWhile is_digit (drop i s)),
      d * 10 ^ length (takeWhile is_digit (drop i s)),
      h \<or> takeWhile is_digit (drop i s) \<noteq> [])"
proof (induction s i a d h rule: frac_loop.induct)
  case (1 s i a d h)
  show ?case
  proof (cases "i < length s \<and> is_digit (s ! i)")
    case True
    then have tw: "takeWhile is_digit (drop i s) = s ! i # takeWhile is_digit (drop (Suc i) s)"
      by (simp add: takeWhile_drop_step)
    from True have "frac_loop s i a d h
        = frac_loop s (i + 1) (a * 10 + (ord (s ! i) - ord CHR ''0'')) (d * 10) True"
      by (subst frac_loop.simps) auto
    also have "\<dots> = (i + 1 + length (takeWhile is_digit (drop (i + 1) s)),
      foldl (\<lambda>v c. v * 10 + digit_value c) (a * 10 + (ord (s ! i) - ord CHR ''0'')) (takeWhile is_digit (drop (i + 1) s)),
      d * 10 * 10 ^ length (takeWhile is_digit (drop (i + 1) s)),
      True \<or> takeWhile is_digit (drop (i + 1) s) \<noteq> [])"
      using True by (rule "1.IH")
    finally show ?thesis
      by (simp add: tw digit_value_def)
  next
    case False
    then have "takeWhile is_digit (drop i s) = []"
      by (rule takeWhile_drop_stop)
    moreover from False have "frac_loop s i a d h = (i, a, d, h)"
      by (subst frac_loop.simps) auto
    ultimately show ?thesis by simp
  qed
qed

lemma drop_takeWhile_len:
  "drop (i + length (takeWhile P (drop i s))) s = dropWhile P (drop i s)"
proof -
  have "drop (i + length (takeWhile P (drop i s))) s
      = drop (length (takeWhile P (drop i s))) (drop i s)"
    by (simp add: add.commute)
  then show ?thesis by (simp add: dropWhile_eq_drop)
qed

lemma scan_end_iff:
  "i + length (takeWhile P (drop i s)) = length s \<longleftrightarrow> i \<le> length s \<and> dropWhile P (drop i s) = []"
proof -
  define a where "a = takeWhile P (drop i s)"
  define b where "b = dropWhile P (drop i s)"
  have "a @ b = drop i s" by (simp add: a_def b_def)
  then have "length a + length b = length s - i" by (metis length_append length_drop)
  moreover have "b = [] \<longleftrightarrow> length b = 0" by simp
  ultimately show ?thesis unfolding a_def[symmetric] b_def[symmetric] by arith
qed

lemma scan_lt_iff:
  assumes "i \<le> length s"
  shows "i + length (takeWhile P (drop i s)) < length s \<longleftrightarrow> dropWhile P (drop i s) \<noteq> []"
proof -
  define a where "a = takeWhile P (drop i s)"
  define b where "b = dropWhile P (drop i s)"
  have "a @ b = drop i s" by (simp add: a_def b_def)
  then have "length a + length b = length s - i" by (metis length_append length_drop)
  moreover have "b = [] \<longleftrightarrow> length b = 0" by simp
  ultimately show ?thesis using assms unfolding a_def[symmetric] b_def[symmetric] by arith
qed

lemma scan_nth:
  assumes "dropWhile P (drop i s) \<noteq> []"
  shows "s ! (i + length (takeWhile P (drop i s))) = hd (dropWhile P (drop i s))"
proof -
  have "hd (drop (i + length (takeWhile P (drop i s))) s) = s ! (i + length (takeWhile P (drop i s)))"
    using assms by (intro hd_drop_conv_nth) (metis drop_takeWhile_len drop_eq_Nil not_le)
  then show ?thesis by (simp add: drop_takeWhile_len)
qed

lemma scan_drop_Suc:
  "drop (i + length (takeWhile P (drop i s)) + 1) s = tl (dropWhile P (drop i s))"
  by (metis drop_takeWhile_len drop_Suc tl_drop Suc_eq_plus1)

lemma parse_number_unfold:
  assumes s: "s = strip token" and ne: "s \<noteq> []"
    and body: "body = drop (sign_len s) s"
    and d1: "d1 = takeWhile is_digit body" and r1: "r1 = dropWhile is_digit body"
    and d2: "d2 = takeWhile is_digit (tl r1)" and r2: "r2 = dropWhile is_digit (tl r1)"
  shows "parse_number token =
    (if r1 \<noteq> [] \<and> hd r1 = CHR ''.''
     then (if (d1 = [] \<and> d2 = []) \<or> r2 \<noteq> [] then Inl (ValueError ''Invalid number'')
           else (case int_to_float (digits_value d1) of
                   Inl e \<Rightarrow> Inl e
                 | Inr ip \<Rightarrow> Inr (sign_of s * (ip
                     + real_of_int (digits_value d2) / 10 ^ length d2))))
     else (if d1 = [] \<or> r1 \<noteq> [] then Inl (ValueError ''Invalid number'')
           else (case int_to_float (digits_value d1) of
                   Inl e \<Rightarrow> Inl e
                 | Inr ip \<Rightarrow> Inr (sign_of s * ip))))"
proof -
  define i0 where "i0 = sign_len s"
  define sg where "sg = sign_of s"
  have i0: "i0 \<le> length s" using ne by (cases s) (auto simp: i0_def sign_len_def)
  have sel: "(if s ! 0 = CHR ''-'' then (- 1, 1)
               else if s ! 0 = CHR ''+'' then (1, 1)
               else (1 :: real, 0 :: nat)) = (sg, i0)"
    using ne by (cases s) (auto simp: i0_def sg_def sign_len_def sign_of_def)
  define i1 where "i1 = i0 + length d1"
  have il: "int_loop s i0 0 False = (i1, digits_value d1, d1 \<noteq> [])"
    by (simp add: int_loop_eq i1_def d1 body i0_def digits_value_def)
  have lt: "i1 < length s \<longleftrightarrow> r1 \<noteq> []"
    using scan_lt_iff[OF i0, of is_digit] by (simp only: i1_def d1 r1 body i0_def)
  have nth: "s ! i1 = hd r1" if "r1 \<noteq> []"
  proof -
    from that have "dropWhile is_digit (drop i0 s) \<noteq> []"
      unfolding r1 body i0_def .
    then have "s ! (i0 + length (takeWhile is_digit (drop i0 s))) = hd (dropWhile is_digit (drop i0 s))"
      by (rule scan_nth)
    then show ?thesis by (simp only: i1_def d1 r1 body i0_def)
  qed
  have dot: "(i1 < length s \<and> s ! i1 = CHR ''.'') \<longleftrightarrow> (r1 \<noteq> [] \<and> hd r1 = CHR ''.'')"
    using lt nth by metis
  have dr: "drop (i1 + 1) s = tl r1"
    unfolding i1_def d1 r1 body i0_def[symmetric] by (rule scan_drop_Suc)
  have fl: "frac_loop s (i1 + 1) 0 1 (d1 \<noteq> []) =
      (i1 + 1 + length d2, digits_value d2, 10 ^ length d2, d1 \<noteq> [] \<or> d2 \<noteq> [])"
    using dr by (simp add: frac_loop_eq d2 digits_value_def)
  have len1: "i1 = length s \<longleftrightarrow> r1 = []"
    using scan_end_iff[of i0 is_digit s] i0 by (simp only: i1_def d1 r1 body i0_def simp_thms)
  have len2: "i1 + 1 + length d2 = length s \<longleftrightarrow> i1 + 1 \<le> length s \<and> r2 = []"
    using scan_end_iff[of "i1 + 1" is_digit s] by (simp only: d2 r2 dr)
  show ?thesis
  proof (cases "r1 \<noteq> [] \<and> hd r1 = CHR ''.''")
    case True
    then have c: "i1 < length s \<and> s ! i1 = CHR ''.''" using dot by simp
    have "parse_number token =
      (if \<not> (d1 \<noteq> [] \<or> d2 \<noteq> []) \<or> i1 + 1 + length d2 \<noteq> length s
       then Inl (ValueError ''Invalid number'')
       else if (10 ^ length d2 :: int) = 0 then Inl ZeroDivisionError
       else (case int_to_float (digits_value d1) of
               Inl e \<Rightarrow> Inl e
             | Inr ip \<Rightarrow> Inr (sg * (ip
                 + real_of_int (digits_value d2) / real_of_int (10 ^ length d2)))))"
      unfolding parse_number_def s[symmetric] Let_def sel
      by (simp only: ne if_False il prod.case c simp_thms if_True fl)
    then show ?thesis using True c len2 by (auto simp: sg_def split: sum.splits)
  next
    case False
    then have c: "\<not> (i1 < length s \<and> s ! i1 = CHR ''.'')" using dot by simp
    have "parse_number token =
      (if \<not> (d1 \<noteq> []) \<or> i1 \<noteq> length s
       then Inl (ValueError ''Invalid number'')
       else if (1 :: int) = 0 then Inl ZeroDivisionError
       else (case int_to_float (digits_value d1) of
               Inl e \<Rightarrow> Inl e
             | Inr ip \<Rightarrow> Inr (sg * (ip + real_of_int 0 / real_of_int 1))))"
      unfolding parse_number_def s[symmetric] Let_def sel
      by (simp only: ne if_False il prod.case c simp_thms if_True)
    then show ?thesis using False len1 by (auto simp: sg_def split: sum.splits)
  qed
qed

subsection \<open>The accepted format\<close>

lemma not_digit_dot [simp]: "\<not> is_digit CHR ''.''"
  and not_digit_plus [simp]: "\<not> is_digit CHR ''+''"
  and not_digit_minus [simp]: "\<not> is_digit CHR ''-''"
  by (simp_all add: is_digit_def ord_def)

lemma count_list_digits: "\<forall>c \<in> set ds. is_digit c \<Longrightarrow> count_list ds CHR ''.'' = 0"
  by (induction ds) auto

lemma count_list_append: "count_list (xs @ ys) a = count_list xs a + count_list ys a"
  by (induction xs) auto

lemma body_ok_iff:
  assumes d1: "d1 = takeWhile is_digit body" and r1: "r1 = dropWhile is_digit body"
    and d2: "d2 = takeWhile is_digit (tl r1)" and r2: "r2 = dropWhile is_digit (tl r1)"
  shows "body_ok body \<longleftrightarrow>
    (if r1 \<noteq> [] \<and> hd r1 = CHR ''.''
     then \<not> ((d1 = [] \<and> d2 = []) \<or> r2 \<noteq> [])
     else \<not> (d1 = [] \<or> r1 \<noteq> []))"
proof -
  have body: "body = d1 @ r1" by (simp add: d1 r1)
  have dig1: "\<forall>c \<in> set d1. is_digit c" unfolding d1 by (auto dest: set_takeWhileD)
  have c1: "count_list d1 CHR ''.'' = 0" using dig1 by (rule count_list_digits)
  show ?thesis
  proof (cases r1)
    case Nil
    then have "body = d1" using body by simp
    then have "body_ok body \<longleftrightarrow> d1 \<noteq> []"
      using dig1 c1 by (cases d1) (auto simp: body_ok_def)
    then show ?thesis using Nil by simp
  next
    case (Cons c r)
    have nd: "\<not> is_digit c"
      using hd_dropWhile[of is_digit body] Cons r1 by (metis list.sel(1) list.distinct(1))
    show ?thesis
    proof (cases "c = CHR ''.''")
      case False
      have "c \<in> set body" using body Cons by simp
      then have "\<not> body_ok body" using nd False by (auto simp: body_ok_def)
      then show ?thesis using Cons False by simp
    next
      case True
      have r: "r = d2 @ r2" using Cons by (simp add: d2 r2)
      have dig2: "\<forall>c \<in> set d2. is_digit c" unfolding d2 by (auto dest: set_takeWhileD)
      have r2iff: "r2 = [] \<longleftrightarrow> (\<forall>c \<in> set r. is_digit c)"
        using Cons by (simp add: r2)
      have cnt: "count_list body CHR ''.'' = 1 + count_list r CHR ''.''"
        using body Cons True c1 by (simp add: count_list_append)
      have "body_ok body \<longleftrightarrow> (\<forall>c \<in> set r. is_digit c) \<and> (d1 \<noteq> [] \<or> r \<noteq> [])"
      proof
        assume ok: "body_ok body"
        then have a: "\<forall>x \<in> set r. is_digit x \<or> x = CHR ''.''"
          and b: "count_list r CHR ''.'' = 0"
          and e: "\<exists>x \<in> set body. is_digit x"
          using cnt body Cons by (auto simp: body_ok_def)
        from b have "CHR ''.'' \<notin> set r" by (simp add: count_list_0_iff)
        with a have all: "\<forall>x \<in> set r. is_digit x" by auto
        from e have "d1 \<noteq> [] \<or> r \<noteq> []" using body Cons True by auto
        with all show "(\<forall>c \<in> set r. is_digit c) \<and> (d1 \<noteq> [] \<or> r \<noteq> [])" by simp
      next
        assume h: "(\<forall>c \<in> set r. is_digit c) \<and> (d1 \<noteq> [] \<or> r \<noteq> [])"
        then have "count_list r CHR ''.'' = 0" by (simp add: count_list_digits)
        moreover have "\<exists>x \<in> set body. is_digit x"
        proof (cases "d1 = []")
          case False
          then obtain x where "x \<in> set d1" by (cases d1) auto
          then show ?thesis using dig1 body by auto
        next
          case True
          with h obtain x where "x \<in> set r" by (cases r) auto
          then show ?thesis using h body Cons by auto
        qed
        moreover have "\<forall>x \<in> set body. is_digit x \<or> x = CHR ''.''"
          using body Cons True dig1 h by auto
        ultimately show "body_ok body" using cnt by (simp add: body_ok_def)
      qed
      moreover have "(\<forall>c \<in> set r. is_digit c) \<Longrightarrow> d2 = r"
        using r r2iff by simp
      ultimately show ?thesis using Cons True r2iff by auto
    qed
  qed
qed

lemma ex_index_tail:
  "(\<exists>i \<in> {1 ..< length (x # xs)}. P ((x # xs) ! i)) \<longleftrightarrow> (\<exists>c \<in> set xs. P c)"
proof
  assume "\<exists>i \<in> {1 ..< length (x # xs)}. P ((x # xs) ! i)"
  then obtain i where i: "1 \<le> i" "i < length (x # xs)" "P ((x # xs) ! i)" by auto
  then obtain j where "i = Suc j" by (cases i) auto
  with i show "\<exists>c \<in> set xs. P c" by auto
next
  assume "\<exists>c \<in> set xs. P c"
  then obtain j where "j < length xs" "P (xs ! j)" by (auto simp: in_set_conv_nth)
  then have "Suc j \<in> {1 ..< length (x # xs)}" "P ((x # xs) ! Suc j)" by auto
  then show "\<exists>i \<in> {1 ..< length (x # xs)}. P ((x # xs) ! i)" by blast
qed

lemma digit_or_dot_iff: "is_digit c \<or> c = CHR ''.'' \<longleftrightarrow> allowed_char c \<and> \<not> is_sign c"
  by (auto simp: allowed_char_def is_sign_def)

lemma sign_not_digit: "is_sign c \<Longrightarrow> \<not> is_digit c"
  and sign_not_dot: "is_sign c \<Longrightarrow> c \<noteq> CHR ''.''"
  and sign_allowed: "is_sign c \<Longrightarrow> allowed_char c"
  by (auto simp: allowed_char_def is_sign_def)

lemma invalid_number_format_iff:
  "invalid_number_format s \<longleftrightarrow> s = [] \<or> \<not> body_ok (drop (sign_len s) s)"
proof (cases s)
  case Nil
  then show ?thesis by (simp add: invalid_number_format_def)
next
  case (Cons x xs)
  have idx: "(\<exists>i \<in> {1 ..< length s}. is_sign (s ! i)) \<longleftrightarrow> (\<exists>c \<in> set xs. is_sign c)"
    unfolding Cons by (rule ex_index_tail)
  have inv: "invalid_number_format s \<longleftrightarrow>
      \<not> ((\<forall>c \<in> set s. allowed_char c) \<and> (\<forall>c \<in> set xs. \<not> is_sign c)
         \<and> count_list s CHR ''.'' \<le> 1 \<and> (\<exists>c \<in> set s. is_digit c))"
  proof -
    have "s \<noteq> []" using Cons by simp
    moreover have "1 < count_list s CHR ''.'' \<longleftrightarrow> \<not> count_list s CHR ''.'' \<le> 1"
      by linarith
    ultimately show ?thesis unfolding invalid_number_format_def idx by blast
  qed
  have sl: "sign_len s = (if is_sign x then 1 else 0)"
    using Cons by (auto simp: sign_len_def is_sign_def)
  show ?thesis
  proof (cases "is_sign x")
    case True
    then have body: "drop (sign_len s) s = xs" using Cons sl by simp
    have cnt: "count_list s CHR ''.'' = count_list xs CHR ''.''"
      using sign_not_dot[OF True] Cons by simp
    have dig: "(\<exists>c \<in> set s. is_digit c) \<longleftrightarrow> (\<exists>c \<in> set xs. is_digit c)"
      using sign_not_digit[OF True] Cons by simp
    have al: "(\<forall>c \<in> set s. allowed_char c) \<longleftrightarrow> (\<forall>c \<in> set xs. allowed_char c)"
      using sign_allowed[OF True] Cons by simp
    have "body_ok xs \<longleftrightarrow> ((\<forall>c \<in> set xs. allowed_char c) \<and> (\<forall>c \<in> set xs. \<not> is_sign c)
         \<and> count_list xs CHR ''.'' \<le> 1 \<and> (\<exists>c \<in> set xs. is_digit c))"
      unfolding body_ok_def digit_or_dot_iff by blast
    then show ?thesis unfolding inv body cnt dig al using Cons by simp
  next
    case False
    then have body: "drop (sign_len s) s = s" using Cons sl by simp
    have "(\<forall>c \<in> set s. \<not> is_sign c) \<longleftrightarrow> (\<forall>c \<in> set xs. \<not> is_sign c)"
      using False Cons by simp
    then have "body_ok s \<longleftrightarrow> ((\<forall>c \<in> set s. allowed_char c) \<and> (\<forall>c \<in> set xs. \<not> is_sign c)
         \<and> count_list s CHR ''.'' \<le> 1 \<and> (\<exists>c \<in> set s. is_digit c))"
      unfolding body_ok_def digit_or_dot_iff by blast
    then show ?thesis unfolding inv body using Cons by simp
  qed
qed

lemma parse_number_empty:
  "strip token = [] \<Longrightarrow> parse_number token = Inl (ValueError ''Empty token'')"
  by (simp add: parse_number_def)

lemma parse_number_result:
  assumes ne: "strip token \<noteq> []"
  defines "s \<equiv> strip token"
  defines "body \<equiv> drop (sign_len s) s"
  defines "ip \<equiv> takeWhile is_digit body"
  defines "fp \<equiv> takeWhile is_digit (tl (dropWhile is_digit body))"
  shows "parse_number token =
     (if body_ok body
      then (case int_to_float (digits_value ip) of
              Inl e \<Rightarrow> Inl e
            | Inr x \<Rightarrow> Inr (sign_of s * (x
                + real_of_int (digits_value fp) / 10 ^ length fp)))
      else Inl (ValueError ''Invalid number''))"
proof -
  define r1 where "r1 = dropWhile is_digit body"
  define r2 where "r2 = dropWhile is_digit (tl r1)"
  have fp: "fp = takeWhile is_digit (tl r1)" by (simp add: fp_def r1_def)
  note u = parse_number_unfold[OF s_def[THEN meta_eq_to_obj_eq] ne[folded s_def]
      body_def[THEN meta_eq_to_obj_eq] ip_def[THEN meta_eq_to_obj_eq] r1_def fp r2_def]
  note b = body_ok_iff[OF ip_def[THEN meta_eq_to_obj_eq] r1_def fp r2_def]
  show ?thesis
  proof (cases "r1 \<noteq> [] \<and> hd r1 = CHR ''.''")
    case True
    then show ?thesis using u b by simp
  next
    case False
    show ?thesis
    proof (cases "ip = [] \<or> r1 \<noteq> []")
      case True
      then show ?thesis using u b False by simp
    next
      case nok: False
      then have "fp = []" by (simp add: fp)
      then show ?thesis using u b False nok
        by (simp add: digits_value_def split: sum.splits)
    qed
  qed
qed

lemma int_to_float_cases:
  "(int_to_float n = Inl OverflowError \<and> 2 ^ 1024 - 2 ^ 970 \<le> \<bar>n\<bar>)
   \<or> (int_to_float n = Inr (real_of_int n) \<and> \<bar>n\<bar> < 2 ^ 1024 - 2 ^ 970)"
  by (simp add: int_to_float_def)

lemma parse_number_Inl_iff:
  "(\<exists>msg. parse_number token = Inl (ValueError msg)) \<longleftrightarrow> invalid_number_format (strip token)"
proof (cases "strip token = []")
  case True
  then show ?thesis by (simp add: parse_number_empty invalid_number_format_def)
next
  case False
  then show ?thesis
    using int_to_float_cases[of "digits_value (int_digits (strip token))"]
    by (auto simp: parse_number_result invalid_number_format_iff int_digits_def)
qed

lemma parse_number_Inr_iff:
  "(\<exists>v. parse_number token = Inr v) \<longleftrightarrow>
     \<not> invalid_number_format (strip token)
     \<and> \<bar>digits_value (int_digits (strip token))\<bar> < 2 ^ 1024 - 2 ^ 970"
proof (cases "strip token = []")
  case True
  then show ?thesis by (simp add: parse_number_empty invalid_number_format_def)
next
  case False
  then show ?thesis
    using int_to_float_cases[of "digits_value (int_digits (strip token))"]
    by (auto simp: parse_number_result invalid_number_format_iff int_digits_def)
qed

lemma parse_number_overflow_iff:
  "parse_number token = Inl OverflowError \<longleftrightarrow>
     \<not> invalid_number_format (strip token)
     \<and> 2 ^ 1024 - 2 ^ 970 \<le> \<bar>digits_value (int_digits (strip token))\<bar>"
proof (cases "strip token = []")
  case True
  then show ?thesis by (simp add: parse_number_empty invalid_number_format_def)
next
  case False
  then show ?thesis
    using int_to_float_cases[of "digits_value (int_digits (strip token))"]
    by (auto simp: parse_number_result invalid_number_format_iff int_digits_def)
qed

lemma parse_number_errors:
  assumes "parse_number token = Inl e"
  shows "(\<exists>msg. e = ValueError msg) \<or> e = OverflowError"
proof (cases "strip token = []")
  case True
  with assms show ?thesis by (auto simp: parse_number_empty)
next
  case False
  with assms show ?thesis
    using int_to_float_cases[of "digits_value (int_digits (strip token))"]
    by (auto simp: parse_number_result int_digits_def split: if_splits)
qed

text \<open>
  The ValueError side of the parser's contract holds on every token: the parser
  raises ValueError exactly on the format errors of \<^const>\<open>invalid_number_format\<close>.
  On the other tokens it returns a value exactly when the integer part converts to a
  float, and raises OverflowError otherwise.
\<close>

lemma parse_number_contract:
  "((\<exists>msg. parse_number token = Inl (ValueError msg)) \<longleftrightarrow> invalid_number_format (strip token))
   \<and> ((\<exists>v. parse_number token = Inr v) \<longleftrightarrow>
        \<not> invalid_number_format (strip token)
        \<and> \<bar>digits_value (int_digits (strip token))\<bar> < 2 ^ 1024 - 2 ^ 970)
   \<and> (parse_number token = Inl OverflowError \<longleftrightarrow>
        \<not> invalid_number_format (strip token)
        \<and> 2 ^ 1024 - 2 ^ 970 \<le> \<bar>digits_value (int_digits (strip token))\<bar>)
   \<and> parse_number '''' = Inl (ValueError ''Empty token'')
   \<and> parse_number ''12.3.4'' = Inl (ValueError ''Invalid number'')
   \<and> parse_number ''12a'' = Inl (ValueError ''Invalid number'')
   \<and> parse_number ''--5'' = Inl (ValueError ''Invalid number'')"
proof -
  have "parse_number '''' = Inl (ValueError ''Empty token'')" by code_simp
  moreover have "parse_number ''12.3.4'' = Inl (ValueError ''Invalid number'')" by code_simp
  moreover have "parse_number ''12a'' = Inl (ValueError ''Invalid number'')" by code_simp
  moreover have "parse_number ''--5'' = Inl (ValueError ''Invalid number'')" by code_simp
  ultimately show ?thesis
    using parse_number_Inl_iff[of token] parse_number_Inr_iff[of token]
      parse_number_overflow_iff[of token]
    by (intro conjI)
qed

lemma digits_value_zeros:
  "foldl (\<lambda>v c. v * 10 + digit_value c) a (replicate n CHR ''0'') = a * 10 ^ n"
  by (induction n arbitrary: a) (simp_all add: digit_value_def ord_def)

lemma long_token_facts:
  "strip (CHR ''1'' # replicate 309 CHR ''0'') = CHR ''1'' # replicate 309 CHR ''0''"
  "int_digits (CHR ''1'' # replicate 309 CHR ''0'') = CHR ''1'' # replicate 309 CHR ''0''"
  "digits_value (CHR ''1'' # replicate 309 CHR ''0'') = 10 ^ 309"
  "\<not> invalid_number_format (CHR ''1'' # replicate 309 CHR ''0'')"
proof -
  let ?t = "CHR ''1'' # replicate 309 CHR ''0''"
  have sp0: "\<not> isspace CHR ''0''" and sp1: "\<not> isspace CHR ''1''"
    by (simp_all add: isspace_def ord_def)
  have d0: "is_digit CHR ''0''" and d1: "is_digit CHR ''1''"
    by (simp_all add: is_digit_def ord_def)
  have "rev ?t = replicate 309 CHR ''0'' @ [CHR ''1'']" by simp
  also have "\<dots> = CHR ''0'' # (replicate 308 CHR ''0'' @ [CHR ''1''])"
    by (simp add: numeral_eq_Suc)
  finally have r: "rev ?t = CHR ''0'' # (replicate 308 CHR ''0'' @ [CHR ''1''])" .
  show s: "strip ?t = ?t"
    unfolding strip_def using sp0 sp1 by (simp only: dropWhile.simps if_False r) (simp add: r[symmetric])
  have all: "\<forall>c \<in> set ?t. is_digit c" using d0 d1 by auto
  then have tw: "takeWhile is_digit ?t = ?t" by (simp only: takeWhile_eq_all_conv)
  show "int_digits ?t = ?t"
    unfolding int_digits_def sign_len_def using tw by simp
  have one: "digit_value CHR ''1'' = 1" by (simp add: digit_value_def ord_def)
  have "digits_value ?t
      = foldl (\<lambda>v c. v * 10 + digit_value c) (0 * 10 + digit_value CHR ''1'')
          (replicate 309 CHR ''0'')"
    by (simp only: digits_value_def foldl.simps)
  also have "\<dots> = (0 * 10 + digit_value CHR ''1'') * 10 ^ 309"
    by (rule digits_value_zeros)
  finally show "digits_value ?t = 10 ^ 309" by (simp add: one)
  have ok: "body_ok ?t"
    unfolding body_ok_def using all count_list_digits[OF all] by auto
  have "drop (sign_len ?t) ?t = ?t" by (simp add: sign_len_def)
  with ok show "\<not> invalid_number_format ?t"
    by (simp add: invalid_number_format_iff)
qed

lemma long_token_overflow:
  "parse_number (CHR ''1'' # replicate 309 CHR ''0'') = Inl OverflowError"
proof -
  let ?t = "CHR ''1'' # replicate 309 CHR ''0''"
  have big: "(2 :: int) ^ 1024 - 2 ^ 970 \<le> \<bar>10 ^ 309\<bar>" by simp
  have fmt: "\<not> invalid_number_format (strip ?t)"
    unfolding long_token_facts(1) by (rule long_token_facts(4))
  have "(2 :: int) ^ 1024 - 2 ^ 970 \<le> \<bar>digits_value (int_digits (strip ?t))\<bar>"
    unfolding long_token_facts(1,2,3) by (rule big)
  with fmt show ?thesis
    by (simp only: parse_number_overflow_iff simp_thms)
qed

text \<open>
  Claim C3. The claim: \<^verbatim>\<open>parse_number\<close> raises ValueError exactly on the format errors,
  and on every other token it succeeds. The first half holds (lemma
  \<open>parse_number_contract\<close>). The second half fails: the token made of the digit 1
  followed by 309 zeros has none of the format errors, and \<^verbatim>\<open>parse_number\<close> raises
  OverflowError on it, which \<^verbatim>\<open>main\<close> does not catch: with that token among its
  tokens, \<^verbatim>\<open>main\<close> ends with the exception.
\<close>

theorem parse_number_overflow_on_long_token:
  "\<not> invalid_number_format (strip (CHR ''1'' # replicate 309 CHR ''0''))
   \<and> parse_number (CHR ''1'' # replicate 309 CHR ''0'') = Inl OverflowError
   \<and> (\<nexists>v. parse_number (CHR ''1'' # replicate 309 CHR ''0'') = Inr v)
   \<and> (\<nexists>msg. parse_number (CHR ''1'' # replicate 309 CHR ''0'') = Inl (ValueError msg))
   \<and> main_compute ''data.txt'' [''2'', CHR ''1'' # replicate 309 CHR ''0'', ''3''] 0
       = Inl OverflowError"
proof -
  let ?t = "CHR ''1'' # replicate 309 CHR ''0''"
  have big: "(2 :: int) ^ 1024 - 2 ^ 970 \<le> \<bar>10 ^ 309\<bar>" by simp
  have fmt: "\<not> invalid_number_format (strip ?t)"
    unfolding long_token_facts(1) by (rule long_token_facts(4))
  have "(2 :: int) ^ 1024 - 2 ^ 970 \<le> \<bar>digits_value (int_digits (strip ?t))\<bar>"
    unfolding long_token_facts(1,2,3) by (rule big)
  with fmt have ov: "parse_number ?t = Inl OverflowError"
    by (simp only: parse_number_overflow_iff simp_thms)
  show ?thesis
  proof (intro conjI)
    show "\<not> invalid_number_format (strip ?t)" by (rule fmt)
    show "parse_number ?t = Inl OverflowError" by (rule ov)
    show "\<nexists>v. parse_number ?t = Inr v" unfolding ov by simp
    show "\<nexists>msg. parse_number ?t = Inl (ValueError msg)" unfolding ov by simp
    have two: "parse_number ''2'' = Inr 2" by code_simp
    show "main_compute ''data.txt'' [''2'', ?t, ''3''] 0 = Inl OverflowError"
      by (simp add: main_compute_def two ov)
  qed
qed

text \<open>The evaluation of C3 read at its second conjunct: the exception raised.\<close>

theorem parse_number_overflow_on_long_token_witness:
  "parse_number (CHR ''1'' # replicate 309 CHR ''0'') = Inl OverflowError"
  using parse_number_overflow_on_long_token by (rule conjunct2[THEN conjunct1])

text \<open>
  Claim C4. Every token \<^verbatim>\<open>parse_number\<close> accepts is, once stripped, an optional
  sign, a run of digits, and optionally a point with a second run of digits; the value
  returned is sign * (integer part + fractional part / 10 ^ number of fractional
  digits), both parts accumulated as \<open>value * 10 + digit\<close>, the sign negative only
  for a leading minus. In particular \<^verbatim>\<open>"12.5"\<close> gives 12.5 and \<^verbatim>\<open>"-3"\<close> gives -3.
\<close>

theorem parse_number_value:
  "(parse_number token = Inr v \<longrightarrow>
      (\<exists>sg ip dot fp.
         strip token = sg @ ip @ dot @ fp
         \<and> (sg = [] \<or> sg = ''+'' \<or> sg = ''-'')
         \<and> (\<forall>c \<in> set ip. is_digit c)
         \<and> (dot = ''.'' \<or> (dot = [] \<and> fp = []))
         \<and> (\<forall>c \<in> set fp. is_digit c)
         \<and> v = (if sg = ''-'' then - 1 else 1)
                 * (real_of_int (digits_value ip)
                    + real_of_int (digits_value fp) / 10 ^ length fp)))
   \<and> parse_number ''12.5'' = Inr 12.5
   \<and> parse_number ''-3'' = Inr (- 3)"
proof (intro conjI impI)
  show "parse_number ''12.5'' = Inr 12.5" by code_simp
  show "parse_number ''-3'' = Inr (- 3)" by code_simp
next
  assume ok: "parse_number token = Inr v"
  define s where "s = strip token"
  define body where "body = drop (sign_len s) s"
  define sg where "sg = take (sign_len s) s"
  define ip where "ip = takeWhile is_digit body"
  define r1 where "r1 = dropWhile is_digit body"
  define dot where "dot = take 1 r1"
  define fp where "fp = takeWhile is_digit (tl r1)"
  define r2 where "r2 = dropWhile is_digit (tl r1)"
  have ne: "strip token \<noteq> []"
    using ok by (auto simp: parse_number_empty)
  have res: "parse_number token =
     (if body_ok body
      then (case int_to_float (digits_value ip) of
              Inl e \<Rightarrow> Inl e
            | Inr x \<Rightarrow> Inr (sign_of s * (x
                + real_of_int (digits_value fp) / 10 ^ length fp)))
      else Inl (ValueError ''Invalid number''))"
    unfolding s_def body_def ip_def fp_def r1_def by (rule parse_number_result[OF ne])
  with ok int_to_float_cases[of "digits_value ip"] have bok: "body_ok body"
    and v: "v = sign_of s * (real_of_int (digits_value ip)
                + real_of_int (digits_value fp) / 10 ^ length fp)"
    by (auto split: if_splits)
  from bok body_ok_iff[OF ip_def r1_def fp_def r2_def]
  have acc: "(if r1 \<noteq> [] \<and> hd r1 = CHR ''.''
     then \<not> ((ip = [] \<and> fp = []) \<or> r2 \<noteq> [])
     else \<not> (ip = [] \<or> r1 \<noteq> []))" by simp
  have r1_split: "r1 = dot @ fp \<and> (dot = ''.'' \<or> (dot = [] \<and> fp = []))"
  proof (cases "r1 \<noteq> [] \<and> hd r1 = CHR ''.''")
    case True
    with acc have "r2 = []" by simp
    then have "fp = tl r1"
      using takeWhile_dropWhile_id[of is_digit "tl r1"] by (simp add: fp_def r2_def)
    with True show ?thesis by (cases r1) (auto simp: dot_def)
  next
    case False
    with acc have "r1 = []" by simp
    then show ?thesis by (simp add: dot_def fp_def)
  qed
  have "s = sg @ body" by (simp add: sg_def body_def)
  moreover have "body = ip @ r1" by (simp add: ip_def r1_def)
  ultimately have dec: "strip token = sg @ ip @ dot @ fp"
    using r1_split by (simp add: s_def)
  have sne: "s \<noteq> []" using ne by (simp add: s_def)
  have sg_cases: "sg = [] \<or> sg = ''+'' \<or> sg = ''-''"
    using sne by (cases s) (auto simp: sg_def sign_len_def)
  have sgn: "sign_of s = (if sg = ''-'' then - 1 else 1)"
    using sne by (cases s) (auto simp: sg_def sign_len_def sign_of_def)
  have d1: "\<forall>c \<in> set ip. is_digit c" unfolding ip_def by (auto dest: set_takeWhileD)
  have d2: "\<forall>c \<in> set fp. is_digit c" unfolding fp_def by (auto dest: set_takeWhileD)
  from dec sg_cases d1 r1_split d2 v[unfolded sgn]
  show "\<exists>sg ip dot fp.
         strip token = sg @ ip @ dot @ fp
         \<and> (sg = [] \<or> sg = ''+'' \<or> sg = ''-'')
         \<and> (\<forall>c \<in> set ip. is_digit c)
         \<and> (dot = ''.'' \<or> (dot = [] \<and> fp = []))
         \<and> (\<forall>c \<in> set fp. is_digit c)
         \<and> v = (if sg = ''-'' then - 1 else 1)
                 * (real_of_int (digits_value ip)
                    + real_of_int (digits_value fp) / 10 ^ length fp)"
    by blast
qed

text \<open>The hypothesis of C4 holds at the token \<^verbatim>\<open>" +12.5 "\<close>.\<close>

theorem parse_number_value_witness:
  "parse_number '' +12.5 '' = Inr 12.5
   \<and> (\<exists>sg ip dot fp.
         strip '' +12.5 '' = sg @ ip @ dot @ fp
         \<and> (sg = [] \<or> sg = ''+'' \<or> sg = ''-'')
         \<and> (\<forall>c \<in> set ip. is_digit c)
         \<and> (dot = ''.'' \<or> (dot = [] \<and> fp = []))
         \<and> (\<forall>c \<in> set fp. is_digit c)
         \<and> (12.5 :: real) = (if sg = ''-'' then - 1 else 1)
                 * (real_of_int (digits_value ip)
                    + real_of_int (digits_value fp) / 10 ^ length fp))"
proof -
  have p: "parse_number '' +12.5 '' = Inr 12.5" by code_simp
  from p parse_number_value[of "'' +12.5 ''" "12.5"] show ?thesis by blast
qed

section \<open>The square root\<close>

lemma newton_loop_pos:
  assumes "0 < x" "0 < g"
  shows "newton_loop k x g = Inr (((\<lambda>guess. 0.5 * (guess + x / guess)) ^^ k) g)
       \<and> 0 < ((\<lambda>guess. 0.5 * (guess + x / guess)) ^^ k) g"
proof -
  define f where "f = (\<lambda>guess. 0.5 * (guess + x / guess))"
  have "newton_loop k x g = Inr ((f ^^ k) g) \<and> 0 < (f ^^ k) g"
    using assms(2)
  proof (induction k arbitrary: g)
    case 0
    then show ?case by simp
  next
    case (Suc k)
    from Suc.prems assms(1) have "0 < x / g" by simp
    with Suc.prems have pos: "0 < f g" by (simp add: f_def)
    have step: "newton_loop (Suc k) x g = newton_loop k x (f g)"
      using Suc.prems by (simp add: f_def)
    have "(f ^^ Suc k) g = (f ^^ k) (f g)" by (simp add: funpow_swap1)
    with Suc.IH[OF pos] step show ?case by simp
  qed
  then show ?thesis by (simp only: f_def)
qed

lemma sqrt_newton_pos:
  assumes "0 < x"
  shows "sqrt_newton x = Inr (((\<lambda>guess. 0.5 * (guess + x / guess)) ^^ 25) (max x 1))"
proof -
  have "0 < max x 1" by simp
  with assms
  have "newton_loop 25 x (max x 1) = Inr (((\<lambda>guess. 0.5 * (guess + x / guess)) ^^ 25) (max x 1))
       \<and> 0 < ((\<lambda>guess. 0.5 * (guess + x / guess)) ^^ 25) (max x 1)"
    by (rule newton_loop_pos)
  then have loop: "newton_loop 25 x (max x 1)
      = Inr (((\<lambda>guess. 0.5 * (guess + x / guess)) ^^ 25) (max x 1))"
    by (rule conjunct1)
  have seed: "(if x \<ge> 1 then x else 1) = max x 1" by (simp add: max_def)
  have "x \<noteq> 0" using assms by simp
  then have "sqrt_newton x = newton_loop 25 x (if x \<ge> 1 then x else 1)"
    unfolding sqrt_newton_def by (rule if_not_P)
  then show ?thesis by (simp only: seed loop)
qed

lemma sqrt_newton_zero: "sqrt_newton 0 = Inr 0"
  unfolding sqrt_newton_def by (rule if_P) (rule refl)

lemma sqrt_newton_nonneg_ok:
  assumes "0 \<le> x"
  shows "\<exists>r. sqrt_newton x = Inr r"
proof (cases "x = 0")
  case True
  then show ?thesis using sqrt_newton_zero by blast
next
  case False
  with assms have "0 < x" by simp
  then show ?thesis using sqrt_newton_pos by blast
qed

text \<open>
  Claim C8. \<^verbatim>\<open>sqrt_newton\<close> returns 0 at 0; at every positive \<open>x\<close> it returns the
  result of exactly 25 steps \<open>guess = 0.5 * (guess + x / guess)\<close> from the seed
  \<open>max x 1\<close>, and no step divides by zero.
\<close>
theorem sqrt_newton_fixed_iterations:
  "sqrt_newton 0 = Inr 0
   \<and> (0 < x \<longrightarrow>
        sqrt_newton x = Inr (((\<lambda>guess. 0.5 * (guess + x / guess)) ^^ 25) (max x 1)))"
  using sqrt_newton_zero sqrt_newton_pos by blast

text \<open>The hypothesis of C8 holds at \<open>x = 4\<close>.\<close>
theorem sqrt_newton_fixed_iterations_witness:
  "(0 :: real) < 4
   \<and> sqrt_newton 4 = Inr (((\<lambda>guess. 0.5 * (guess + 4 / guess)) ^^ 25) (max 4 1))"
proof -
  have pos: "(0 :: real) < 4" by simp
  with sqrt_newton_fixed_iterations[of 4] show ?thesis by blast
qed

section \<open>Mean and variance\<close>

lemma foldl_plus_sum_list:
  "foldl (\<lambda>total v. total + f v) a xs = a + sum_list (map f xs)" for a :: real
  by (induction xs arbitrary: a) simp_all

lemma mean_eq:
  "vs \<noteq> [] \<Longrightarrow> mean vs = Inr (sum_list vs / real (length vs))"
  using foldl_plus_sum_list[of "\<lambda>v. v" 0 vs] by (simp add: mean_def)

lemma variance_eq:
  "vs \<noteq> [] \<Longrightarrow>
     variance vs avg = Inr ((\<Sum>v\<leftarrow>vs. (v - avg)\<^sup>2) / real (length vs))"
  using foldl_plus_sum_list[of "\<lambda>v. (v - avg) * (v - avg)" 0 vs]
  by (simp add: variance_def Let_def power2_eq_square)

lemma sum_sq_zero_iff:
  "(\<Sum>v\<leftarrow>vs. (v - avg)\<^sup>2) = 0 \<longleftrightarrow> (\<forall>v \<in> set vs. v = avg)" for avg :: real
proof -
  have "sum_list (map (\<lambda>v. (v - avg)\<^sup>2) vs) = 0
        \<longleftrightarrow> (\<forall>x \<in> set (map (\<lambda>v. (v - avg)\<^sup>2) vs). x = 0)"
    by (rule sum_list_nonneg_eq_0_iff) auto
  then show ?thesis by simp
qed

lemma sum_list_const:
  "\<forall>v \<in> set vs. v = c \<Longrightarrow> sum_list vs = real (length vs) * c"
  by (induction vs) (auto simp: algebra_simps)

text \<open>
  Claim C6. For a non-empty list, \<^verbatim>\<open>variance\<close> at the list's \<^verbatim>\<open>mean\<close> is the sum of
  the squared deviations divided by the number of values (the population variance); it
  is not negative, and it is 0 exactly when all the values are equal. This is a
  statement of exact arithmetic: the rounded mean of equal floats need not be equal to
  them.
\<close>
theorem variance_nonneg_zero_iff:
  assumes "values \<noteq> []"
  shows "\<exists>avg var. mean values = Inr avg \<and> variance values avg = Inr var
           \<and> var = (\<Sum>v\<leftarrow>values. (v - avg)\<^sup>2) / real (length values)
           \<and> 0 \<le> var
           \<and> (var = 0 \<longleftrightarrow> (\<forall>v \<in> set values. \<forall>w \<in> set values. v = w))"
proof -
  define avg where "avg = sum_list values / real (length values)"
  define var where "var = (\<Sum>v\<leftarrow>values. (v - avg)\<^sup>2) / real (length values)"
  have len: "0 < real (length values)" using assms by simp
  have m: "mean values = Inr avg" using assms by (simp add: mean_eq avg_def)
  have v: "variance values avg = Inr var" using assms by (simp add: variance_eq var_def)
  have nonneg: "0 \<le> var"
    unfolding var_def using len by (intro divide_nonneg_pos sum_list_nonneg) auto
  have z: "var = 0 \<longleftrightarrow> (\<forall>v \<in> set values. v = avg)"
    unfolding var_def using len by (simp add: sum_sq_zero_iff)
  have "(\<forall>v \<in> set values. v = avg) \<longleftrightarrow> (\<forall>v \<in> set values. \<forall>w \<in> set values. v = w)"
  proof
    assume "\<forall>v \<in> set values. v = avg"
    then show "\<forall>v \<in> set values. \<forall>w \<in> set values. v = w" by metis
  next
    assume same: "\<forall>v \<in> set values. \<forall>w \<in> set values. v = w"
    obtain c where c: "c \<in> set values" using assms by (cases "values") auto
    with same have allc: "\<forall>v \<in> set values. v = c" by blast
    then have "sum_list values = real (length values) * c" by (rule sum_list_const)
    then have "avg = c" unfolding avg_def using len by simp
    with allc show "\<forall>v \<in> set values. v = avg" by simp
  qed
  with z have iff: "var = 0 \<longleftrightarrow> (\<forall>v \<in> set values. \<forall>w \<in> set values. v = w)" by simp
  have eq: "var = (\<Sum>v\<leftarrow>values. (v - avg)\<^sup>2) / real (length values)" by (rule var_def)
  from m v eq nonneg iff show ?thesis by (intro exI conjI)
qed

text \<open>The hypothesis of C6 holds at the list 1, 2.\<close>
theorem variance_nonneg_zero_iff_witness:
  "[1, 2 :: real] \<noteq> [] \<and>
   (\<exists>avg var. mean [1, 2] = Inr avg \<and> variance [1, 2] avg = Inr var
           \<and> var = (\<Sum>v\<leftarrow>[1, 2]. (v - avg)\<^sup>2) / real (length [1, 2 :: real])
           \<and> 0 \<le> var
           \<and> (var = 0 \<longleftrightarrow> (\<forall>v \<in> set [1, 2 :: real]. \<forall>w \<in> set [1, 2]. v = w)))"
proof -
  have ne: "[1, 2 :: real] \<noteq> []" by simp
  from ne variance_nonneg_zero_iff[OF ne] show ?thesis by (rule conjI)
qed

section \<open>Selection sort and the median\<close>

subsection \<open>The loops\<close>

lemma min_loop_spec:
  assumes "i \<le> m" "m < j" "j \<le> n" "n \<le> length a"
    and "\<forall>k. i \<le> k \<and> k < j \<longrightarrow> a ! m \<le> a ! k"
  shows "i \<le> min_loop a j n m \<and> min_loop a j n m < n
       \<and> (\<forall>k. i \<le> k \<and> k < n \<longrightarrow> a ! min_loop a j n m \<le> a ! k)"
  using assms
proof (induction a j n m rule: min_loop.induct)
  case (1 arr j n min_index)
  show ?case
  proof (cases "j < n")
    case True
    define m' where "m' = (if arr ! j < arr ! min_index then j else min_index)"
    have unf: "min_loop arr j n min_index = min_loop arr (j + 1) n m'"
      using True by (subst min_loop.simps) (simp add: m'_def)
    have a: "i \<le> m'" using "1.prems" by (simp add: m'_def)
    have b: "m' < j + 1" using "1.prems" by (simp add: m'_def)
    have c: "j + 1 \<le> n" using True by simp
    have d: "\<forall>k. i \<le> k \<and> k < j + 1 \<longrightarrow> arr ! m' \<le> arr ! k"
    proof (intro allI impI)
      fix k assume k: "i \<le> k \<and> k < j + 1"
      show "arr ! m' \<le> arr ! k"
      proof (cases "k = j")
        case True
        then show ?thesis by (simp add: m'_def)
      next
        case False
        with k have "k < j" by simp
        with k "1.prems" have "arr ! min_index \<le> arr ! k" by simp
        then show ?thesis by (auto simp: m'_def)
      qed
    qed
    from "1.IH"[OF True a[unfolded m'_def] b[unfolded m'_def] c "1.prems"(4) d[unfolded m'_def]]
    show ?thesis unfolding unf m'_def .
  next
    case False
    then have unf: "min_loop arr j n min_index = min_index"
      by (subst min_loop.simps) simp
    from False "1.prems" have "j = n" by simp
    with "1.prems" show ?thesis unfolding unf by simp
  qed
qed

lemma sort_loop_frame:
  "length (sort_loop h arr i n) = length h
   \<and> (\<forall>r. r \<noteq> arr \<longrightarrow> sort_loop h arr i n ! r = h ! r)"
proof (induction h arr i n rule: sort_loop.induct)
  case (1 h arr i n)
  show ?case
  proof (cases "i < n")
    case True
    define a where "a = h ! arr"
    define m where "m = min_loop a (i + 1) n i"
    define h' where "h' = h[arr := a[i := a ! m, m := a ! i]]"
    have unf: "sort_loop h arr i n = sort_loop h' arr (i + 1) n"
      using True by (subst sort_loop.simps) (simp add: Let_def a_def m_def h'_def)
    have "length (sort_loop h' arr (i + 1) n) = length h'
        \<and> (\<forall>r. r \<noteq> arr \<longrightarrow> sort_loop h' arr (i + 1) n ! r = h' ! r)"
      unfolding h'_def m_def a_def by (rule "1.IH"[OF True refl refl])
    then show ?thesis unfolding unf by (simp add: h'_def)
  next
    case False
    then have "sort_loop h arr i n = h" by (subst sort_loop.simps) simp
    then show ?thesis by simp
  qed
qed

lemma sort_loop_sorts:
  assumes "arr < length h" "n = length (h ! arr)" "i \<le> n"
    and "\<forall>p q. p < i \<and> p < q \<and> q < n \<longrightarrow> h ! arr ! p \<le> h ! arr ! q"
  shows "mset (sort_loop h arr i n ! arr) = mset (h ! arr)
       \<and> sorted (sort_loop h arr i n ! arr)"
  using assms
proof (induction h arr i n rule: sort_loop.induct)
  case (1 h arr i n)
  show ?case
  proof (cases "i < n")
    case True
    define a where "a = h ! arr"
    define m where "m = min_loop a (i + 1) n i"
    define a' where "a' = a[i := a ! m, m := a ! i]"
    define h' where "h' = h[arr := a']"
    have unf: "sort_loop h arr i n = sort_loop h' arr (i + 1) n"
      using True by (subst sort_loop.simps) (simp add: Let_def a_def m_def h'_def a'_def)
    have n: "n = length a" using "1.prems" by (simp add: a_def)
    have "i \<le> m \<and> m < n \<and> (\<forall>k. i \<le> k \<and> k < n \<longrightarrow> a ! m \<le> a ! k)"
      unfolding m_def using True n by (intro min_loop_spec) (auto simp: less_Suc_eq_le)
    then have im: "i \<le> m" and mn: "m < n" and least: "\<And>k. i \<le> k \<Longrightarrow> k < n \<Longrightarrow> a ! m \<le> a ! k"
      by auto
    have ha: "h' ! arr = a'" using "1.prems"(1) by (simp add: h'_def)
    have len: "length a' = length a" by (simp add: a'_def)
    have ms: "mset a' = mset a"
      unfolding a'_def using True mn n by (intro mset_swap) auto
    have inv: "\<forall>p q. p < i + 1 \<and> p < q \<and> q < n \<longrightarrow> h' ! arr ! p \<le> h' ! arr ! q"
    proof (intro allI impI)
      fix p q assume pq: "p < i + 1 \<and> p < q \<and> q < n"
      have old: "\<And>p q. p < i \<Longrightarrow> p < q \<Longrightarrow> q < n \<Longrightarrow> a ! p \<le> a ! q"
        using "1.prems"(4) by (simp add: a_def)
      have nth: "\<And>k. k < n \<Longrightarrow> a' ! k = (if k = m then a ! i else if k = i then a ! m else a ! k)"
        using n by (auto simp: a'_def nth_list_update)
      show "h' ! arr ! p \<le> h' ! arr ! q"
      proof (cases "p = i")
        case True
        then have "a' ! p = a ! m" using nth[of p] pq by auto
        moreover have "a ! m \<le> a' ! q"
          using nth[of q] pq True im least[of i] least[of q] \<open>i < n\<close> by auto
        ultimately show ?thesis by (simp add: ha)
      next
        case False
        with pq have pi: "p < i" by simp
        then have "a' ! p = a ! p" using nth[of p] pq im by auto
        moreover have "a ! p \<le> a' ! q"
          using nth[of q] pq pi im mn old[of p q] old[of p i] old[of p m] \<open>i < n\<close> by auto
        ultimately show ?thesis by (simp add: ha)
      qed
    qed
    have "mset (sort_loop h' arr (i + 1) n ! arr) = mset (h' ! arr)
        \<and> sorted (sort_loop h' arr (i + 1) n ! arr)"
      unfolding h'_def a'_def m_def a_def
    proof (rule "1.IH"[OF True refl refl])
      show "arr < length (h[arr := (h ! arr)[i := h ! arr ! min_loop (h ! arr) (i + 1) n i,
              min_loop (h ! arr) (i + 1) n i := h ! arr ! i]])"
        using "1.prems"(1) by simp
      show "n = length (h[arr := (h ! arr)[i := h ! arr ! min_loop (h ! arr) (i + 1) n i,
              min_loop (h ! arr) (i + 1) n i := h ! arr ! i]] ! arr)"
        using "1.prems"(1,2) by simp
      show "i + 1 \<le> n" using True by simp
      show "\<forall>p q. p < i + 1 \<and> p < q \<and> q < n \<longrightarrow>
          h[arr := (h ! arr)[i := h ! arr ! min_loop (h ! arr) (i + 1) n i,
              min_loop (h ! arr) (i + 1) n i := h ! arr ! i]] ! arr ! p
          \<le> h[arr := (h ! arr)[i := h ! arr ! min_loop (h ! arr) (i + 1) n i,
              min_loop (h ! arr) (i + 1) n i := h ! arr ! i]] ! arr ! q"
        using inv unfolding h'_def a'_def m_def a_def .
    qed
    then show ?thesis unfolding unf using ha ms by (simp add: a_def)
  next
    case False
    then have unf: "sort_loop h arr i n = h" by (subst sort_loop.simps) simp
    from False "1.prems" have "i = n" by simp
    with "1.prems" have "\<forall>p q. p < q \<and> q < length (h ! arr) \<longrightarrow> h ! arr ! p \<le> h ! arr ! q"
      by auto
    then have "sorted (h ! arr)" by (simp add: sorted_iff_nth_mono_less)
    then show ?thesis unfolding unf by simp
  qed
qed

lemma selection_sort_spec:
  assumes "vals < length h"
  shows "fst (selection_sort h vals) ! vals = h ! vals"
    and "snd (selection_sort h vals) = length h"
    and "length (fst (selection_sort h vals)) = Suc (length h)"
    and "\<forall>r < length h. fst (selection_sort h vals) ! r = h ! r"
    and "mset (fst (selection_sort h vals) ! snd (selection_sort h vals)) = mset (h ! vals)"
    and "sorted (fst (selection_sort h vals) ! snd (selection_sort h vals))"
proof -
  define h1 where "h1 = h @ [h ! vals]"
  define arr where "arr = length h"
  define n where "n = length (h1 ! arr)"
  have ss: "selection_sort h vals = (sort_loop h1 arr 0 n, arr)"
    by (simp add: selection_sort_def list_copy_def h1_def arr_def n_def)
  have copy: "h1 ! arr = h ! vals" by (simp add: h1_def arr_def)
  have frame: "length (sort_loop h1 arr 0 n) = length h1"
    "\<And>r. r \<noteq> arr \<Longrightarrow> sort_loop h1 arr 0 n ! r = h1 ! r"
    using sort_loop_frame[of h1 arr 0 n] by auto
  have old: "\<And>r. r < length h \<Longrightarrow> h1 ! r = h ! r" by (simp add: h1_def nth_append)
  have srt: "mset (sort_loop h1 arr 0 n ! arr) = mset (h1 ! arr)
       \<and> sorted (sort_loop h1 arr 0 n ! arr)"
    by (rule sort_loop_sorts) (simp_all add: h1_def arr_def n_def)
  show "fst (selection_sort h vals) ! vals = h ! vals"
    using assms frame(2)[of vals] old[of vals] by (simp add: ss arr_def)
  show "snd (selection_sort h vals) = length h" by (simp add: ss arr_def)
  show "length (fst (selection_sort h vals)) = Suc (length h)"
    using frame(1) by (simp add: ss h1_def)
  show "\<forall>r < length h. fst (selection_sort h vals) ! r = h ! r"
    using frame(2) old by (simp add: ss arr_def)
  show "mset (fst (selection_sort h vals) ! snd (selection_sort h vals)) = mset (h ! vals)"
    using srt copy by (simp add: ss)
  show "sorted (fst (selection_sort h vals) ! snd (selection_sort h vals))"
    using srt by (simp add: ss)
qed

subsection \<open>The sorted copy\<close>

text \<open>
  Claim C9. \<^verbatim>\<open>selection_sort\<close> returns a reference to a new list object, different
  from its argument, whose elements are the elements of the argument with the same
  multiplicities, in ascending order (each element at most its successor); the list its
  argument refers to, and every other list that existed before the call, is unchanged.
\<close>
theorem selection_sort_sorted_permutation:
  assumes "values < length h"
  shows "case selection_sort h values of
           (h', arr) \<Rightarrow>
              arr \<noteq> values \<and> \<not> arr < length h
            \<and> mset (h' ! arr) = mset (h ! values)
            \<and> sorted (h' ! arr)
            \<and> (\<forall>k. Suc k < length (h' ! arr) \<longrightarrow> h' ! arr ! k \<le> h' ! arr ! Suc k)
            \<and> h' ! values = h ! values
            \<and> (\<forall>r < length h. h' ! r = h ! r)"
proof -
  obtain h' arr where ss: "selection_sort h values = (h', arr)"
    by (cases "selection_sort h values")
  note sp = selection_sort_spec[OF assms, unfolded ss fst_conv snd_conv]
  have "sorted (h' ! arr)" by (rule sp(6))
  then have "\<forall>k. Suc k < length (h' ! arr) \<longrightarrow> h' ! arr ! k \<le> h' ! arr ! Suc k"
    by (simp add: sorted_iff_nth_Suc)
  with sp assms show ?thesis unfolding ss by simp
qed

text \<open>The hypothesis of C9 holds for the list 3, 1, 2 as the only object of the store.\<close>
theorem selection_sort_sorted_permutation_witness:
  "(0 :: nat) < length [[3, 1, 2 :: real]]
   \<and> (case selection_sort [[3, 1, 2]] 0 of
           (h', arr) \<Rightarrow>
              arr \<noteq> 0 \<and> \<not> arr < length [[3, 1, 2 :: real]]
            \<and> mset (h' ! arr) = mset ([[3, 1, 2]] ! 0)
            \<and> sorted (h' ! arr)
            \<and> (\<forall>k. Suc k < length (h' ! arr) \<longrightarrow> h' ! arr ! k \<le> h' ! arr ! Suc k)
            \<and> h' ! 0 = [[3, 1, 2]] ! 0
            \<and> (\<forall>r < length [[3, 1, 2 :: real]]. h' ! r = [[3, 1, 2]] ! r))"
proof -
  have a: "(0 :: nat) < length [[3, 1, 2 :: real]]" by simp
  from a selection_sort_sorted_permutation[OF a] show ?thesis by (rule conjI)
qed

lemma list_get_in_range:
  "k < length xs \<Longrightarrow> list_get xs (int k) = Inr (xs ! k)"
  by (simp add: list_get_def)

lemma median_eq:
  assumes "xs \<noteq> []"
  shows "median xs =
     Inr (if odd (length xs) then xs ! (length xs div 2)
          else (xs ! (length xs div 2 - 1) + xs ! (length xs div 2)) / 2)"
proof (cases "odd (length xs)")
  case True
  then have m: "int (length xs) mod 2 = 1"
    by (metis even_of_nat_iff odd_iff_mod_2_eq_one)
  have d: "int (length xs) div 2 = int (length xs div 2)" by simp
  have "length xs div 2 < length xs" using assms by simp
  then show ?thesis
    using True m unfolding median_def Let_def d by (simp add: list_get_in_range)
next
  case False
  then have m: "int (length xs) mod 2 \<noteq> 1"
    by (metis even_of_nat_iff odd_iff_mod_2_eq_one)
  have pos: "0 < length xs" using assms by simp
  with False have two: "2 \<le> length xs" by presburger
  have d: "int (length xs) div 2 = int (length xs div 2)" by simp
  have d1: "int (length xs div 2) - 1 = int (length xs div 2 - 1)"
    using two by (simp add: of_nat_diff)
  have "length xs div 2 < length xs" "length xs div 2 - 1 < length xs"
    using pos by presburger+
  then show ?thesis
    using False m unfolding median_def Let_def d d1 by (simp add: list_get_in_range)
qed

lemma median_empty: "median [] = Inl IndexError"
  by (simp add: median_def list_get_def)

lemma nth_between_Min_Max:
  "k < length xs \<Longrightarrow> Min (set xs) \<le> xs ! k \<and> xs ! k \<le> Max (set xs)" for xs :: "real list"
  by simp

text \<open>
  Claim C7. For a non-empty list, \<^verbatim>\<open>median\<close> of the list \<^verbatim>\<open>selection_sort\<close> returns
  is the middle element of the ascending values when their number is odd and the mean
  of the two central elements when it is even, and it lies between the smallest and
  the largest value. This is a statement of exact arithmetic: the sum of two floats
  near the largest float is infinite.
\<close>
theorem median_between_min_max:
  assumes "values < length h" and "h ! values \<noteq> []"
  shows "case selection_sort h values of
           (h', arr) \<Rightarrow>
             (\<exists>m. median (h' ! arr) = Inr m
                \<and> h' ! arr = sort (h ! values)
                \<and> m = (if odd (length (h ! values))
                       then sort (h ! values) ! (length (h ! values) div 2)
                       else (sort (h ! values) ! (length (h ! values) div 2 - 1)
                             + sort (h ! values) ! (length (h ! values) div 2)) / 2)
                \<and> Min (set (h ! values)) \<le> m \<and> m \<le> Max (set (h ! values)))"
proof -
  obtain h' arr where ss: "selection_sort h values = (h', arr)"
    by (cases "selection_sort h values")
  note sp = selection_sort_spec[OF assms(1), unfolded ss fst_conv snd_conv]
  define xs where "xs = h' ! arr"
  define vs where "vs = h ! values"
  have ms: "mset xs = mset vs" and so: "sorted xs" using sp by (simp_all add: xs_def vs_def)
  have eq: "xs = sort vs" using ms so by (metis properties_for_sort)
  have len: "length xs = length vs" using ms by (metis size_mset)
  have set: "set xs = set vs" using ms by (metis set_mset_mset)
  have ne: "xs \<noteq> []" using assms(2) len by (auto simp: vs_def)
  define m where "m = (if odd (length xs) then xs ! (length xs div 2)
          else (xs ! (length xs div 2 - 1) + xs ! (length xs div 2)) / 2)"
  have med: "median xs = Inr m" using median_eq[OF ne] by (simp add: m_def)
  have pos: "0 < length xs" using ne by simp
  then have k: "length xs div 2 < length xs" "length xs div 2 - 1 < length xs" by presburger+
  have b1: "Min (set xs) \<le> xs ! (length xs div 2)" "xs ! (length xs div 2) \<le> Max (set xs)"
    using nth_between_Min_Max[OF k(1)] by simp_all
  have b2: "Min (set xs) \<le> xs ! (length xs div 2 - 1)" "xs ! (length xs div 2 - 1) \<le> Max (set xs)"
    using nth_between_Min_Max[OF k(2)] by simp_all
  have bounds: "Min (set xs) \<le> m \<and> m \<le> Max (set xs)"
    unfolding m_def using b1 b2 by auto
  have "\<exists>m. median xs = Inr m
        \<and> xs = sort vs
        \<and> m = (if odd (length vs) then sort vs ! (length vs div 2)
               else (sort vs ! (length vs div 2 - 1) + sort vs ! (length vs div 2)) / 2)
        \<and> Min (set vs) \<le> m \<and> m \<le> Max (set vs)"
  proof (intro exI conjI)
    show "median xs = Inr m" by (rule med)
    show "xs = sort vs" by (rule eq)
    show "m = (if odd (length vs) then sort vs ! (length vs div 2)
               else (sort vs ! (length vs div 2 - 1) + sort vs ! (length vs div 2)) / 2)"
      unfolding m_def len eq[symmetric] ..
    show "Min (set vs) \<le> m" using bounds set by simp
    show "m \<le> Max (set vs)" using bounds set by simp
  qed
  then show ?thesis unfolding ss xs_def vs_def prod.case .
qed

text \<open>The hypotheses of C7 hold for the list 3, 1, 2 as the only object of the store.\<close>
theorem median_between_min_max_witness:
  "(0 :: nat) < length [[3, 1, 2 :: real]] \<and> [[3, 1, 2 :: real]] ! 0 \<noteq> []
   \<and> (case selection_sort [[3, 1, 2]] 0 of
           (h', arr) \<Rightarrow>
             (\<exists>m. median (h' ! arr) = Inr m
                \<and> h' ! arr = sort ([[3, 1, 2]] ! 0)
                \<and> m = (if odd (length ([[3, 1, 2 :: real]] ! 0))
                       then sort ([[3, 1, 2]] ! 0) ! (length ([[3, 1, 2 :: real]] ! 0) div 2)
                       else (sort ([[3, 1, 2]] ! 0) ! (length ([[3, 1, 2 :: real]] ! 0) div 2 - 1)
                             + sort ([[3, 1, 2]] ! 0) ! (length ([[3, 1, 2 :: real]] ! 0) div 2)) / 2)
                \<and> Min (set ([[3, 1, 2]] ! 0)) \<le> m \<and> m \<le> Max (set ([[3, 1, 2]] ! 0))))"
proof -
  have a: "(0 :: nat) < length [[3, 1, 2 :: real]]" by simp
  have b: "[[3, 1, 2 :: real]] ! 0 \<noteq> []" by simp
  from a b median_between_min_max[OF a b] show ?thesis by (intro conjI)
qed

section \<open>The mode\<close>

lemma first_occurrences_snoc:
  "first_occurrences (xs @ [x]) =
     (if x \<in> set xs then first_occurrences xs else first_occurrences xs @ [x])"
  by (simp add: first_occurrences_def)

lemma set_first_occurrences [simp]: "set (first_occurrences xs) = set xs"
  by (simp add: first_occurrences_def)

lemma distinct_first_occurrences [simp]: "distinct (first_occurrences xs)"
  by (simp add: first_occurrences_def)

lemma dict_get_map:
  "dict_get (map (\<lambda>k. (k, f k)) ks) v d = (if v \<in> set ks then f v else d)"
  by (induction ks) auto

lemma dict_set_map:
  "distinct ks \<Longrightarrow>
   dict_set (map (\<lambda>k. (k, f k)) ks) v c =
     (if v \<in> set ks then map (\<lambda>k. (k, if k = v then c else f k)) ks
      else map (\<lambda>k. (k, f k)) ks @ [(v, c)])"
  by (induction ks) auto

lemma count_list_snoc:
  "count_list (xs @ [x]) k = count_list xs k + (if k = x then 1 else 0)"
  by (induction xs) auto

lemma counts_loop_eq:
  "foldl (\<lambda>counts v. dict_set counts v (dict_get counts v 0 + 1)) [] vs
     = map (\<lambda>k. (k, int (count_list vs k))) (first_occurrences vs)"
proof (induction vs rule: rev_induct)
  case Nil
  then show ?case by (simp add: first_occurrences_def)
next
  case (snoc v vs)
  show ?case
  proof (cases "v \<in> set vs")
    case True
    then show ?thesis
      by (simp add: snoc.IH dict_get_map dict_set_map first_occurrences_snoc count_list_snoc)
  next
    case False
    then have "count_list vs v = 0" by (simp add: count_list_0_iff)
    moreover from False
    have "map (\<lambda>k. (k, int (count_list vs k) + (if k = v then 1 else 0))) (first_occurrences vs)
        = map (\<lambda>k. (k, int (count_list vs k))) (first_occurrences vs)"
      by (intro map_cong) auto
    ultimately show ?thesis using False
      by (auto simp: snoc.IH dict_get_map dict_set_map first_occurrences_snoc count_list_snoc)
  qed
qed

lemma max_loop_eq:
  "foldl (\<lambda>max_count c. if c > max_count then c else max_count) a cs = Max (insert a (set cs))"
  for a :: int
proof (induction cs arbitrary: a)
  case Nil
  then show ?case by simp
next
  case (Cons c cs)
  have "(if c > a then c else a) = max a c" by (simp add: max_def)
  then have "foldl (\<lambda>max_count c. if c > max_count then c else max_count) a (c # cs)
      = Max (insert (max a c) (set cs))"
    by (simp add: Cons.IH)
  also have "\<dots> = Max (insert a (set (c # cs)))"
  proof (cases "cs = []")
    case True
    then show ?thesis by (simp add: max.commute)
  next
    case False
    then have "Max (insert a (insert c (set cs))) = max a (max c (Max (set cs)))" by simp
    moreover from False have "Max (insert (max a c) (set cs)) = max (max a c) (Max (set cs))" by simp
    ultimately show ?thesis by (simp add: max.assoc)
  qed
  finally show ?case .
qed

lemma modes_loop_eq:
  "foldl (\<lambda>modes (k, c). if c = m then modes @ [k] else modes) acc kcs
     = acc @ map fst (filter (\<lambda>(k, c). c = m) kcs)"
  by (induction kcs arbitrary: acc) auto

lemma filter_counts:
  "map fst (filter (\<lambda>(k, c). c = m) (map (\<lambda>k. (k, g k)) ks)) = filter (\<lambda>k. g k = m) ks"
  by (induction ks) auto

lemma max_count_eq:
  "Max (insert 0 (set (map snd (map (\<lambda>k. (k, int (count_list vs k))) (first_occurrences vs)))))
     = int (max_frequency vs)"
proof -
  have "set (map snd (map (\<lambda>k. (k, int (count_list vs k))) (first_occurrences vs)))
      = int ` count_list vs ` set vs"
    by (auto simp: image_iff)
  then have "Max (insert 0 (set (map snd (map (\<lambda>k. (k, int (count_list vs k))) (first_occurrences vs)))))
      = Max (int ` insert 0 (count_list vs ` set vs))"
    by simp
  also have "\<dots> = int (Max (insert 0 (count_list vs ` set vs)))"
    by (rule mono_Max_commute[symmetric]) (auto simp: mono_def)
  finally show ?thesis by (simp add: max_frequency_def)
qed

lemma mode_eq:
  "mode vs =
     (if max_frequency vs \<le> 1 then []
      else filter (\<lambda>v. count_list vs v = max_frequency vs) (first_occurrences vs))"
  unfolding mode_def Let_def counts_loop_eq max_loop_eq max_count_eq modes_loop_eq filter_counts
  by simp

lemma max_frequency_le_iff: "max_frequency vs \<le> n \<longleftrightarrow> (\<forall>v. count_list vs v \<le> n)"
proof -
  have "max_frequency vs \<le> n \<longleftrightarrow> (\<forall>v \<in> set vs. count_list vs v \<le> n)"
    by (simp add: max_frequency_def)
  also have "\<dots> \<longleftrightarrow> (\<forall>v. count_list vs v \<le> n)"
    by (metis count_list_0_iff le0)
  finally show ?thesis .
qed

text \<open>
  Claim C5. \<^verbatim>\<open>mode\<close> returns the empty list when no value occurs more than once
  (the largest number of occurrences is at most 1); otherwise it returns exactly the
  values that occur the largest number of times, in the order of their first
  occurrence. In particular the modes of 1, 2, 2, 3 are 2, the list 1, 2, 3 has none,
  and the modes of 1, 1, 2, 2 are 1 and 2.
\<close>
theorem mode_most_frequent_in_first_occurrence_order:
  "mode values =
     (if max_frequency values \<le> 1 then []
      else filter (\<lambda>v. count_list values v = max_frequency values) (first_occurrences values))
   \<and> (max_frequency values \<le> 1 \<longleftrightarrow> (\<forall>v. count_list values v \<le> 1))
   \<and> mode [1, 2, 2, 3] = [2]
   \<and> mode [1, 2, 3] = []
   \<and> mode [1, 1, 2, 2] = [1, 2]"
proof -
  have "mode [1, 2, 2, 3] = [2]" by code_simp
  moreover have "mode [1, 2, 3] = []" by code_simp
  moreover have "mode [1, 1, 2, 2] = [1, 2]" by code_simp
  ultimately show ?thesis
    using mode_eq[of "values"] max_frequency_le_iff[of "values" 1] by (intro conjI)
qed

text \<open>Both branches of C5 occur: a list with repeated values and one without.\<close>
theorem mode_most_frequent_in_first_occurrence_order_witness:
  "\<not> max_frequency [3, 1, 3, 1, 2] \<le> 1
   \<and> mode [3, 1, 3, 1, 2] =
       filter (\<lambda>v. count_list [3, 1, 3, 1, 2] v = max_frequency [3, 1, 3, 1, 2])
         (first_occurrences [3, 1, 3, 1, 2])
   \<and> max_frequency [1, 2, 3] \<le> 1
   \<and> mode [1, 2, 3] = []"
proof -
  have a: "\<not> max_frequency [3, 1, 3, 1, 2] \<le> 1" by code_simp
  have b: "max_frequency [1, 2, 3] \<le> 1" by code_simp
  have "mode [3, 1, 3, 1, 2] =
       filter (\<lambda>v. count_list [3, 1, 3, 1, 2] v = max_frequency [3, 1, 3, 1, 2])
         (first_occurrences [3, 1, 3, 1, 2])"
    using mode_most_frequent_in_first_occurrence_order[of "[3, 1, 3, 1, 2]", THEN conjunct1] a
    by (simp only: if_False)
  moreover have "mode [1, 2, 3] = []"
    using mode_most_frequent_in_first_occurrence_order[of "[1, 2, 3]", THEN conjunct1] b
    by (simp only: if_True)
  ultimately show ?thesis using a b by (intro conjI)
qed

section \<open>The compute path of \<^verbatim>\<open>main\<close>\<close>

lemma parse_tokens_result:
  "(\<exists>vs k. parse_tokens ts acc invalid = Inr (vs, k))
   \<or> parse_tokens ts acc invalid = Inl OverflowError"
proof (induction ts arbitrary: acc invalid)
  case Nil
  then show ?case by simp
next
  case (Cons t ts)
  show ?case
  proof (cases "parse_number t")
    case (Inl e)
    from parse_number_errors[OF Inl] show ?thesis
    proof
      assume "\<exists>msg. e = ValueError msg"
      with Inl show ?thesis using Cons.IH[of acc "invalid + 1"] by auto
    next
      assume "e = OverflowError"
      with Inl show ?thesis by simp
    qed
  next
    case (Inr v)
    then show ?thesis using Cons.IH[of "acc @ [v]" invalid] by simp
  qed
qed

lemma parse_tokens_all_invalid:
  assumes "\<forall>t \<in> set ts. \<exists>msg. parse_number t = Inl (ValueError msg)"
  shows "parse_tokens ts acc invalid = Inr (acc, invalid + int (length ts))"
  using assms
proof (induction ts arbitrary: invalid)
  case Nil
  then show ?case by simp
next
  case (Cons t ts)
  then obtain msg where "parse_number t = Inl (ValueError msg)" by auto
  with Cons show ?case by simp
qed

lemma parse_tokens_values:
  assumes "parse_tokens ts acc invalid = Inr (vs, k)"
  shows "\<exists>ws. vs = acc @ ws \<and> (ws \<noteq> [] \<longrightarrow> (\<exists>t \<in> set ts. \<exists>v. parse_number t = Inr v))"
  using assms
proof (induction ts arbitrary: acc invalid)
  case Nil
  then show ?case by simp
next
  case (Cons t ts)
  show ?case
  proof (cases "parse_number t")
    case (Inl e)
    from parse_number_errors[OF Inl] show ?thesis
    proof
      assume "\<exists>msg. e = ValueError msg"
      with Inl Cons.prems have "parse_tokens ts acc (invalid + 1) = Inr (vs, k)" by auto
      from Cons.IH[OF this] show ?thesis by auto
    next
      assume "e = OverflowError"
      with Inl Cons.prems show ?thesis by simp
    qed
  next
    case (Inr v)
    with Cons.prems have "parse_tokens ts (acc @ [v]) invalid = Inr (vs, k)" by simp
    from Cons.IH[OF this] Inr show ?thesis by auto
  qed
qed

lemma variance_nonneg:
  assumes "vs \<noteq> []"
  shows "\<exists>var. variance vs avg = Inr var \<and> 0 \<le> var"
proof -
  have "0 \<le> (\<Sum>v\<leftarrow>vs. (v - avg)\<^sup>2) / real (length vs)"
    by (intro divide_nonneg_nonneg sum_list_nonneg) auto
  then show ?thesis using variance_eq[OF assms] by simp
qed

lemma build_report_ok:
  assumes "vs \<noteq> []"
  shows "\<exists>r. build_report input_file vs invalid_count elapsed = Inr r
           \<and> rep_count r = int (length vs) \<and> rep_invalid r = invalid_count
           \<and> mean vs = Inr (rep_mean r)
           \<and> median (sort vs) = Inr (rep_median r)
           \<and> rep_mode r = mode vs
           \<and> variance vs (rep_mean r) = Inr (rep_variance r)
           \<and> sqrt_newton (rep_variance r) = Inr (rep_std r)"
proof -
  obtain h sorted_ref where ss: "selection_sort [vs] 0 = (h, sorted_ref)"
    by (cases "selection_sort [vs] 0")
  have z: "(0 :: nat) < length [vs]" by simp
  note sp = selection_sort_spec[OF z, unfolded ss fst_conv snd_conv]
  have h0: "h ! 0 = vs" using sp(1) by simp
  have "mset (h ! sorted_ref) = mset vs" "sorted (h ! sorted_ref)" using sp(5,6) by simp_all
  then have hs: "h ! sorted_ref = sort vs" by (metis properties_for_sort)
  obtain avg where avg: "mean vs = Inr avg" using mean_eq[OF assms] by blast
  have "sort vs \<noteq> []" using assms by (metis length_sort length_0_conv)
  then obtain med where med: "median (sort vs) = Inr med" using median_eq by blast
  obtain var where var: "variance vs avg = Inr var" "0 \<le> var"
    using variance_nonneg[OF assms] by blast
  obtain std where std: "sqrt_newton var = Inr std"
    using sqrt_newton_nonneg_ok[OF var(2)] by blast
  have "build_report input_file vs invalid_count elapsed =
      Inr \<lparr>rep_input_file = input_file, rep_count = int (length vs),
           rep_invalid = invalid_count, rep_mean = avg, rep_median = med,
           rep_mode = mode vs, rep_variance = var, rep_std = std, rep_elapsed = elapsed\<rparr>"
    unfolding build_report_def Let_def ss prod.case h0 hs
    by (simp only: avg med var std sum.case)
  then show ?thesis using avg med var std by simp
qed

lemma build_report_empty:
  "build_report input_file [] invalid_count elapsed = Inl ZeroDivisionError"
proof -
  obtain h sorted_ref where ss: "selection_sort [[]] 0 = (h, sorted_ref)"
    by (cases "selection_sort [[]] 0")
  have z: "(0 :: nat) < length [[] :: real list]" by simp
  have h0: "h ! 0 = []" using selection_sort_spec(1)[OF z] ss by simp
  have "mean [] = Inl ZeroDivisionError" by (simp add: mean_def)
  then show ?thesis unfolding build_report_def Let_def ss prod.case h0 by simp
qed

lemma main_compute_cases:
  "(parse_tokens tokens [] 0 = Inl OverflowError
      \<and> main_compute input_file tokens elapsed = Inl OverflowError)
   \<or> (\<exists>vs k. parse_tokens tokens [] 0 = Inr (vs, k)
        \<and> (if vs = [] then main_compute input_file tokens elapsed = Inr (NoValidNumbers k)
            else (\<exists>r. build_report input_file vs k elapsed = Inr r
                   \<and> main_compute input_file tokens elapsed = Inr (Statistics r))))"
proof -
  from parse_tokens_result[of tokens "[]" 0] show ?thesis
  proof
    assume "\<exists>vs k. parse_tokens tokens [] 0 = Inr (vs, k)"
    then obtain vs k where p: "parse_tokens tokens [] 0 = Inr (vs, k)" by blast
    show ?thesis
    proof (cases "vs = []")
      case True
      with p show ?thesis by (simp add: main_compute_def)
    next
      case False
      then obtain r where "build_report input_file vs k elapsed = Inr r"
        using build_report_ok by blast
      with p False show ?thesis by (simp add: main_compute_def)
    qed
  next
    assume "parse_tokens tokens [] 0 = Inl OverflowError"
    then show ?thesis by (simp add: main_compute_def)
  qed
qed

text \<open>
  Claim C1. On the tokens 4, 8, 6, 5, 3, 2, 8, 9, 2, 5 the compute path of \<^verbatim>\<open>main\<close>
  ends with the report of \<^verbatim>\<open>build_report\<close>: 10 values, 0 invalid tokens, mean 5.2,
  median 5.0, the modes 8, 5, 2 (as a set: 2, 5, 8) and variance 5.76.
\<close>

theorem end_to_end_ten_tokens:
  "\<exists>r. main_compute input_file
          [''4'', ''8'', ''6'', ''5'', ''3'', ''2'', ''8'', ''9'', ''2'', ''5''] elapsed
        = Inr (Statistics r)
      \<and> rep_count r = 10 \<and> rep_invalid r = 0
      \<and> rep_mean r = 5.2 \<and> rep_median r = 5.0
      \<and> rep_mode r = [8, 5, 2] \<and> set (rep_mode r) = {2, 5, 8}
      \<and> rep_variance r = 5.76"
proof -
  define vs :: "real list" where "vs = [4, 8, 6, 5, 3, 2, 8, 9, 2, 5]"
  have p: "parse_tokens [''4'', ''8'', ''6'', ''5'', ''3'', ''2'', ''8'', ''9'', ''2'', ''5''] [] 0
      = Inr (vs, 0)"
    unfolding vs_def by code_simp
  have ne: "vs \<noteq> []" by (simp add: vs_def)
  obtain r where r: "build_report input_file vs 0 elapsed = Inr r"
    and cnt: "rep_count r = int (length vs)" and inv: "rep_invalid r = 0"
    and avg: "mean vs = Inr (rep_mean r)"
    and med: "median (sort vs) = Inr (rep_median r)"
    and mo: "rep_mode r = mode vs"
    and var: "variance vs (rep_mean r) = Inr (rep_variance r)"
    using build_report_ok[OF ne, of input_file 0 elapsed] by blast
  have m: "main_compute input_file
      [''4'', ''8'', ''6'', ''5'', ''3'', ''2'', ''8'', ''9'', ''2'', ''5''] elapsed
      = Inr (Statistics r)"
    using p r ne by (simp add: main_compute_def)
  have "mean vs = Inr 5.2" unfolding vs_def by code_simp
  with avg have a: "rep_mean r = 5.2" by simp
  have "median (sort vs) = Inr 5" unfolding vs_def by code_simp
  with med have b: "rep_median r = 5.0" by simp
  have "mode vs = [8, 5, 2]" unfolding vs_def by code_simp
  with mo have c: "rep_mode r = [8, 5, 2]" by simp
  then have c': "set (rep_mode r) = {2, 5, 8}" by auto
  have "variance vs 5.2 = Inr 5.76" unfolding vs_def by code_simp
  with var a have d: "rep_variance r = 5.76" by simp
  have e: "rep_count r = 10" using cnt by (simp add: vs_def)
  from m e inv a b c c' d show ?thesis by (intro exI conjI)
qed

text \<open>C1 at a concrete file name and elapsed time.\<close>

theorem end_to_end_ten_tokens_witness:
  "\<exists>r. main_compute ''data.txt''
          [''4'', ''8'', ''6'', ''5'', ''3'', ''2'', ''8'', ''9'', ''2'', ''5''] 0
        = Inr (Statistics r)
      \<and> rep_count r = 10 \<and> rep_invalid r = 0
      \<and> rep_mean r = 5.2 \<and> rep_median r = 5.0
      \<and> rep_mode r = [8, 5, 2] \<and> set (rep_mode r) = {2, 5, 8}
      \<and> rep_variance r = 5.76"
  by (rule end_to_end_ten_tokens)

text \<open>
  When every token is rejected with ValueError, the compute path of \<^verbatim>\<open>main\<close> ends
  in the branch \<^verbatim>\<open>No valid numbers found\<close>, with every token counted as invalid; and
  whatever the tokens, a report of statistics is only produced from at least one valid
  value.
\<close>

lemma all_rejected_outcome:
  "((\<forall>t \<in> set tokens. \<exists>msg. parse_number t = Inl (ValueError msg)) \<longrightarrow>
       main_compute input_file tokens elapsed = Inr (NoValidNumbers (int (length tokens)))
       \<and> (\<forall>r. main_compute input_file tokens elapsed \<noteq> Inr (Statistics r)))
   \<and> (\<forall>r. main_compute input_file tokens elapsed = Inr (Statistics r) \<longrightarrow>
         0 < rep_count r \<and> (\<exists>t \<in> set tokens. \<exists>v. parse_number t = Inr v))
   \<and> main_compute input_file [''x'', ''y''] elapsed = Inr (NoValidNumbers 2)"
proof (intro conjI impI allI)
  assume inv: "\<forall>t \<in> set tokens. \<exists>msg. parse_number t = Inl (ValueError msg)"
  have "parse_tokens tokens [] 0 = Inr ([], 0 + int (length tokens))"
    using inv by (rule parse_tokens_all_invalid)
  then show nv: "main_compute input_file tokens elapsed = Inr (NoValidNumbers (int (length tokens)))"
    by (simp add: main_compute_def)
  fix r show "main_compute input_file tokens elapsed \<noteq> Inr (Statistics r)"
    unfolding nv by simp
next
  fix r assume st: "main_compute input_file tokens elapsed = Inr (Statistics r)"
  from main_compute_cases[of tokens input_file elapsed] st
  obtain vs k where p: "parse_tokens tokens [] 0 = Inr (vs, k)" by auto
  have ne: "vs \<noteq> []" using st p by (auto simp: main_compute_def split: if_splits)
  from parse_tokens_values[OF p] ne
  show "\<exists>t \<in> set tokens. \<exists>v. parse_number t = Inr v" by auto
  obtain r' where r': "build_report input_file vs k elapsed = Inr r'"
    and cnt: "rep_count r' = int (length vs)"
    using build_report_ok[OF ne, of input_file k elapsed] by blast
  from st p ne r' have "r = r'" by (simp add: main_compute_def)
  with cnt ne show "0 < rep_count r" by simp
next
  have x: "parse_number ''x'' = Inl (ValueError ''Invalid number'')" by code_simp
  have y: "parse_number ''y'' = Inl (ValueError ''Invalid number'')" by code_simp
  show "main_compute input_file [''x'', ''y''] elapsed = Inr (NoValidNumbers 2)"
    by (simp add: main_compute_def x y)
qed

text \<open>
  Claim C2. The claim: whenever no token parses as a valid number, the compute path
  of \<^verbatim>\<open>main\<close> ends in the branch \<^verbatim>\<open>No valid numbers found\<close>. It does when every
  token is rejected with ValueError (lemma \<open>all_rejected_outcome\<close>), and it never
  ends with a report of statistics without a valid value. It does not when a token
  raises OverflowError: on the single token made of the digit 1 followed by 309 zeros,
  and on the tokens x and that token, no token parses as a number, and \<^verbatim>\<open>main\<close>
  ends with the uncaught exception instead of that branch.
\<close>

theorem no_valid_numbers_overflow_crash:
  "(\<forall>t \<in> set [CHR ''1'' # replicate 309 CHR ''0'']. \<nexists>v. parse_number t = Inr v)
   \<and> main_compute ''data.txt'' [CHR ''1'' # replicate 309 CHR ''0''] 0 = Inl OverflowError
   \<and> (\<forall>t \<in> set [''x'', CHR ''1'' # replicate 309 CHR ''0'']. \<nexists>v. parse_number t = Inr v)
   \<and> main_compute ''data.txt'' [''x'', CHR ''1'' # replicate 309 CHR ''0''] 0
       = Inl OverflowError
   \<and> (\<forall>out. main_compute ''data.txt'' [''x'', CHR ''1'' # replicate 309 CHR ''0''] 0
       \<noteq> Inr out)"
proof -
  let ?t = "CHR ''1'' # replicate 309 CHR ''0''"
  have ov: "parse_number ?t = Inl OverflowError" by (rule long_token_overflow)
  have x: "parse_number ''x'' = Inl (ValueError ''Invalid number'')" by code_simp
  have a: "\<forall>t \<in> set [?t]. \<nexists>v. parse_number t = Inr v" by (simp add: ov)
  have b: "main_compute ''data.txt'' [?t] 0 = Inl OverflowError"
    by (simp add: main_compute_def ov)
  have c: "\<forall>t \<in> set [''x'', ?t]. \<nexists>v. parse_number t = Inr v" by (simp add: ov x)
  have d: "main_compute ''data.txt'' [''x'', ?t] 0 = Inl OverflowError"
    by (simp add: main_compute_def ov x)
  have e: "\<forall>out. main_compute ''data.txt'' [''x'', ?t] 0 \<noteq> Inr out"
    unfolding d by simp
  from a b c d e show ?thesis by (intro conjI)
qed

text \<open>The evaluation of C2 read at its second conjunct: how \<^verbatim>\<open>main\<close> ends.\<close>

theorem no_valid_numbers_overflow_crash_witness:
  "main_compute ''data.txt'' [CHR ''1'' # replicate 309 CHR ''0''] 0 = Inl OverflowError"
  using no_valid_numbers_overflow_crash by (rule conjunct2[THEN conjunct1])

text \<open>
  Claim C10. \<^verbatim>\<open>mean\<close>, \<^verbatim>\<open>median\<close> and \<^verbatim>\<open>variance\<close> fail on the empty list (division
  by zero, index out of range), and so does \<^verbatim>\<open>build_report\<close>; on a non-empty list
  they all return. The compute path of \<^verbatim>\<open>main\<close> calls \<^verbatim>\<open>build_report\<close> only with a
  non-empty list of values, so it never ends in a division by zero or an index out of
  range.
\<close>

theorem statistics_guarded_by_nonempty_check:
  "mean [] = Inl ZeroDivisionError
   \<and> median [] = Inl IndexError
   \<and> variance [] avg = Inl ZeroDivisionError
   \<and> build_report input_file [] invalid_count elapsed = Inl ZeroDivisionError
   \<and> (values \<noteq> [] \<longrightarrow>
        (\<exists>a m v r. mean values = Inr a \<and> median (sort values) = Inr m
           \<and> variance values a = Inr v
           \<and> build_report input_file values invalid_count elapsed = Inr r))
   \<and> (\<forall>vs k. parse_tokens tokens [] 0 = Inr (vs, k) \<longrightarrow>
        (if vs = [] then main_compute input_file tokens elapsed = Inr (NoValidNumbers k)
         else (\<exists>r. build_report input_file vs k elapsed = Inr r
                 \<and> main_compute input_file tokens elapsed = Inr (Statistics r))))
   \<and> main_compute input_file tokens elapsed \<noteq> Inl ZeroDivisionError
   \<and> main_compute input_file tokens elapsed \<noteq> Inl IndexError"
proof (intro conjI impI allI)
  show "mean [] = Inl ZeroDivisionError" by (simp add: mean_def)
  show "median [] = Inl IndexError" by (rule median_empty)
  show "variance [] avg = Inl ZeroDivisionError" by (simp add: variance_def)
  show "build_report input_file [] invalid_count elapsed = Inl ZeroDivisionError"
    by (rule build_report_empty)
  show "main_compute input_file tokens elapsed \<noteq> Inl ZeroDivisionError"
    using main_compute_cases[of tokens input_file elapsed] by (auto split: if_splits)
  show "main_compute input_file tokens elapsed \<noteq> Inl IndexError"
    using main_compute_cases[of tokens input_file elapsed] by (auto split: if_splits)
next
  fix vs k assume "parse_tokens tokens [] 0 = Inr (vs, k)"
  then show "if vs = [] then main_compute input_file tokens elapsed = Inr (NoValidNumbers k)
         else (\<exists>r. build_report input_file vs k elapsed = Inr r
                 \<and> main_compute input_file tokens elapsed = Inr (Statistics r))"
    using main_compute_cases[of tokens input_file elapsed] by auto
next
  assume ne: "values \<noteq> []"
  from build_report_ok[OF ne, of input_file invalid_count elapsed]
  show "\<exists>a m v r. mean values = Inr a \<and> median (sort values) = Inr m
           \<and> variance values a = Inr v
           \<and> build_report input_file values invalid_count elapsed = Inr r"
    by blast
qed

text \<open>
  The hypotheses of C10 hold at the list 1, 2 and at the tokens 1, x, 2, whose values
  are that list.
\<close>

theorem statistics_guarded_by_nonempty_check_witness:
  "[1, 2 :: real] \<noteq> []
   \<and> (\<exists>a m v r. mean [1, 2] = Inr a \<and> median (sort [1, 2]) = Inr m
           \<and> variance [1, 2] a = Inr v
           \<and> build_report ''data.txt'' [1, 2] 1 0 = Inr r)
   \<and> parse_tokens [''1'', ''x'', ''2''] [] 0 = Inr ([1, 2], 1)
   \<and> (\<exists>r. build_report ''data.txt'' [1, 2] 1 0 = Inr r
          \<and> main_compute ''data.txt'' [''1'', ''x'', ''2''] 0 = Inr (Statistics r))"
proof -
  have ne: "[1, 2 :: real] \<noteq> []" by simp
  have p: "parse_tokens [''1'', ''x'', ''2''] [] 0 = Inr ([1, 2], 1)" by code_simp
  note t = statistics_guarded_by_nonempty_check[of 0 "''data.txt''" 1 0 "[1, 2]" "[''1'', ''x'', ''2'']"]
  from t ne have a: "\<exists>a m v r. mean [1, 2] = Inr a \<and> median (sort [1, 2]) = Inr m
           \<and> variance [1, 2] a = Inr v
           \<and> build_report ''data.txt'' [1, 2] 1 0 = Inr r"
    by blast
  from t p have "if [1, 2 :: real] = []
      then main_compute ''data.txt'' [''1'', ''x'', ''2''] 0 = Inr (NoValidNumbers 1)
      else (\<exists>r. build_report ''data.txt'' [1, 2] 1 0 = Inr r
              \<and> main_compute ''data.txt'' [''1'', ''x'', ''2''] 0 = Inr (Statistics r))"
    by blast
  then have b: "\<exists>r. build_report ''data.txt'' [1, 2] 1 0 = Inr r
          \<and> main_compute ''data.txt'' [''1'', ''x'', ''2''] 0 = Inr (Statistics r)"
    by simp
  from ne a p b show ?thesis by (intro conjI)
qed

end
